theory Spec2Isabelle
  imports Main "HOL-Library.Word" "HOL-Library.Sublist"
begin

section \<open>JavaScript strings\<close>

text \<open>
  A JavaScript string is a sequence of UTF-16 code units, and \<^verbatim>\<open>length\<close>,
  \<^verbatim>\<open>slice\<close>, \<^verbatim>\<open>startsWith\<close>, \<^verbatim>\<open>includes\<close> and regular expressions without the
  \<^verbatim>\<open>u\<close> flag all count and compare code units. A string is therefore a list of
  16-bit words. \<open>js\<close> turns an ASCII literal into such a string.
\<close>

type_synonym jschar = "16 word"
type_synonym jsstring = "jschar list"

definition js :: "string \<Rightarrow> jsstring" where
  "js s = map (\<lambda>c. of_nat (of_char c)) s"

definition SPACE :: jschar where
  "SPACE = 0x20"

text \<open>\<^verbatim>\<open>s.startsWith(t)\<close>, \<^verbatim>\<open>s.endsWith(t)\<close> and \<^verbatim>\<open>s.includes(t)\<close>.\<close>

definition startsWith :: "jsstring \<Rightarrow> jsstring \<Rightarrow> bool" where
  "startsWith s t = (take (length t) s = t)"

definition endsWith :: "jsstring \<Rightarrow> jsstring \<Rightarrow> bool" where
  "endsWith s t = (length t \<le> length s \<and> drop (length s - length t) s = t)"

fun includes_js :: "jsstring \<Rightarrow> jsstring \<Rightarrow> bool" where
  "includes_js [] t = (t = [])"
| "includes_js (c # cs) t = (startsWith (c # cs) t \<or> includes_js cs t)"

text \<open>
  \<^verbatim>\<open>s.slice(-i)\<close> for \<open>i > 0\<close> (a start before the beginning is clamped to 0),
  \<^verbatim>\<open>s.slice(0, i)\<close> and \<^verbatim>\<open>s.slice(i)\<close>.
\<close>

definition slice_last :: "jsstring \<Rightarrow> nat \<Rightarrow> jsstring" where
  "slice_last s i = drop (length s - i) s"

definition slice_to :: "jsstring \<Rightarrow> nat \<Rightarrow> jsstring" where
  "slice_to s i = take i s"

definition slice_from :: "jsstring \<Rightarrow> nat \<Rightarrow> jsstring" where
  "slice_from s i = drop i s"

section \<open>The transcript reconciler\<close>

text \<open>
  \<^verbatim>\<open>mergeTranscripts\<close> of \<^verbatim>\<open>src/app/recording/page.tsx\<close>. The loop
  \<^verbatim>\<open>for (let i = max; i > 0; i--)\<close> returns from the function at the first \<open>i\<close> whose
  test succeeds; \<open>None\<close> is the loop running to its end.
\<close>

fun overlap_loop :: "jsstring \<Rightarrow> jsstring \<Rightarrow> nat \<Rightarrow> jsstring option" where
  "overlap_loop previous incoming 0 = None"
| "overlap_loop previous incoming (Suc n) =
     (if slice_last previous (Suc n) = slice_to incoming (Suc n)
      then Some (previous @ slice_from incoming (Suc n))
      else overlap_loop previous incoming n)"

definition mergeTranscripts :: "jsstring \<Rightarrow> jsstring \<Rightarrow> jsstring" where
  "mergeTranscripts previous incoming =
     (if incoming = [] then previous
      else if previous = [] then incoming
      else if startsWith incoming previous then incoming
      else if includes_js incoming previous then incoming
      else if includes_js previous incoming then previous
      else (case overlap_loop previous incoming (min (length previous) (length incoming)) of
              Some merged \<Rightarrow> merged
            | None \<Rightarrow> previous @ (if endsWith previous [SPACE] then [] else [SPACE]) @ incoming))"

text \<open>
  The second copy of \<^verbatim>\<open>mergeTranscripts\<close>, in the recording-button component
  (the second module of \<^verbatim>\<open>src/lib/aiFormatter.ts\<close>), with its own loop.
\<close>

fun overlap_loop_button :: "jsstring \<Rightarrow> jsstring \<Rightarrow> nat \<Rightarrow> jsstring option" where
  "overlap_loop_button previous incoming 0 = None"
| "overlap_loop_button previous incoming (Suc n) =
     (if slice_last previous (Suc n) = slice_to incoming (Suc n)
      then Some (previous @ slice_from incoming (Suc n))
      else overlap_loop_button previous incoming n)"

definition mergeTranscripts_button :: "jsstring \<Rightarrow> jsstring \<Rightarrow> jsstring" where
  "mergeTranscripts_button previous incoming =
     (if incoming = [] then previous
      else if previous = [] then incoming
      else if startsWith incoming previous then incoming
      else if includes_js incoming previous then incoming
      else if includes_js previous incoming then previous
      else (case overlap_loop_button previous incoming (min (length previous) (length incoming)) of
              Some merged \<Rightarrow> merged
            | None \<Rightarrow> previous @ (if endsWith previous [SPACE] then [] else [SPACE]) @ incoming))"

text \<open>
  The recording session. The transcript callback merges each update into the
  accumulated text (\<^verbatim>\<open>transcript || ''\<close>: a missing transcript counts as the empty
  string) and mirrors it into the displayed transcript; starting a recording resets both.
\<close>

record session =
  accumulated :: jsstring
  currentTranscript :: jsstring

definition onTranscript :: "session \<Rightarrow> jsstring option \<Rightarrow> session" where
  "onTranscript st transcript =
     (let incoming = (case transcript of None \<Rightarrow> [] | Some t \<Rightarrow> t);
          merged = mergeTranscripts (accumulated st) incoming
      in st\<lparr>accumulated := merged, currentTranscript := merged\<rparr>)"

definition startSession :: "session \<Rightarrow> session" where
  "startSession st = st\<lparr>accumulated := [], currentTranscript := []\<rparr>"

section \<open>Characters and string helpers of the formatter\<close>

text \<open>
  The class \<^verbatim>\<open>\s\<close> of a regular expression, which is also what \<^verbatim>\<open>trim\<close> removes:
  ECMAScript's WhiteSpace and LineTerminator code points.
\<close>

definition is_ws :: "jschar \<Rightarrow> bool" where
  "is_ws c =
     (c \<in> {0x09, 0x0A, 0x0B, 0x0C, 0x0D, 0x20, 0xA0, 0x1680, 0x2028, 0x2029, 0x202F,
            0x205F, 0x3000, 0xFEFF}
      \<or> (0x2000 \<le> c \<and> c \<le> 0x200A))"

text \<open>The classes \<^verbatim>\<open>[,.!?]\<close>, \<^verbatim>\<open>[.!?]\<close>, \<^verbatim>\<open>[\r\n]\<close> and \<^verbatim>\<open>["'\s]\<close>.\<close>

definition is_punct :: "jschar \<Rightarrow> bool" where
  "is_punct c = (c = 0x2C \<or> c = 0x2E \<or> c = 0x21 \<or> c = 0x3F)"

definition is_term :: "jschar \<Rightarrow> bool" where
  "is_term c = (c = 0x2E \<or> c = 0x21 \<or> c = 0x3F)"

definition is_crlf :: "jschar \<Rightarrow> bool" where
  "is_crlf c = (c = 0x0D \<or> c = 0x0A)"

definition is_quote_ws :: "jschar \<Rightarrow> bool" where
  "is_quote_ws c = (c = 0x22 \<or> c = 0x27 \<or> is_ws c)"

text \<open>Line feed, the bullet U+2022 and the ellipsis U+2026.\<close>

definition LF :: jschar where
  "LF = 0x0A"

definition BULLET :: jschar where
  "BULLET = 0x2022"

definition ELLIPSIS :: jschar where
  "ELLIPSIS = 0x2026"

definition trim :: "jsstring \<Rightarrow> jsstring" where
  "trim s = rev (dropWhile is_ws (rev (dropWhile is_ws s)))"

text \<open>\<^verbatim>\<open>xs.join(sep)\<close>.\<close>

fun join :: "jsstring \<Rightarrow> jsstring list \<Rightarrow> jsstring" where
  "join sep [] = []"
| "join sep [x] = x"
| "join sep (x # y # ys) = x @ sep @ join sep (y # ys)"

text \<open>
  \<^verbatim>\<open>s.replace(/C+/g, r)\<close> for a character class \<open>C\<close>: every maximal run of
  characters of the class is replaced by \<open>r\<close>.
\<close>

function replace_runs :: "(jschar \<Rightarrow> bool) \<Rightarrow> jsstring \<Rightarrow> jsstring \<Rightarrow> jsstring" where
  "replace_runs C r [] = []"
| "replace_runs C r (c # cs) =
     (if C c then r @ replace_runs C r (dropWhile C cs) else c # replace_runs C r cs)"
  by pat_completeness auto
termination
  by (relation "measure (\<lambda>(C, r, s). length s)")
     (auto simp: length_dropWhile_le le_imp_less_Suc)

text \<open>
  Matching with the \<^verbatim>\<open>i\<close> flag and no \<^verbatim>\<open>u\<close> flag compares canonicalised code
  units, and a code unit outside ASCII never canonicalises to an ASCII one: against the
  ASCII patterns of this program a character matches when it is the pattern's letter in
  either case. \<open>test_ci alts s\<close> is \<^verbatim>\<open>/a1|a2|.../i.test(s)\<close> for lower-case
  alternatives without metacharacters.
\<close>

definition lowerAscii :: "jschar \<Rightarrow> jschar" where
  "lowerAscii c = (if 0x41 \<le> c \<and> c \<le> 0x5A then c + 0x20 else c)"

definition test_ci :: "jsstring list \<Rightarrow> jsstring \<Rightarrow> bool" where
  "test_ci alts s = list_ex (\<lambda>w. includes_js (map lowerAscii s) w) alts"

text \<open>
  \<^verbatim>\<open>s.toLowerCase()\<close>. The ASCII capitals, and the two code points outside ASCII
  whose lower case contains an ASCII letter (U+0130 and the Kelvin sign U+212A), are
  mapped as Unicode maps them. For every other code unit outside ASCII the model keeps
  the code unit where Unicode may give another one outside ASCII: the program never
  returns a lower-cased string, it only searches it for ASCII words, and such a code
  unit matches none of their letters either way.
\<close>

definition lower_unit :: "jschar \<Rightarrow> jsstring" where
  "lower_unit c =
     (if 0x41 \<le> c \<and> c \<le> 0x5A then [c + 0x20]
      else if c = 0x0130 then [0x69, 0x0307]
      else if c = 0x212A then [0x6B]
      else [c])"

definition toLowerCase :: "jsstring \<Rightarrow> jsstring" where
  "toLowerCase s = concat (map lower_unit s)"

section \<open>The title\<close>

text \<open>
  \<^verbatim>\<open>sanitizeTitle\<close>: \<^verbatim>\<open>.replace(/[\r\n]+/g, ' ')\<close>, then
  \<^verbatim>\<open>.replace(/^["'\s]+|["'\s]+$/g, '')\<close>, which removes the run of quotes and white
  space at the start and the one at the end, then \<^verbatim>\<open>.trim()\<close>.
\<close>

definition strip_quote_ws :: "jsstring \<Rightarrow> jsstring" where
  "strip_quote_ws s = rev (dropWhile is_quote_ws (rev (dropWhile is_quote_ws s)))"

definition sanitizeTitle :: "jsstring \<Rightarrow> jsstring" where
  "sanitizeTitle title = trim (strip_quote_ws (replace_runs is_crlf [SPACE] title))"

text \<open>
  \<^verbatim>\<open>cleaned.match(/[^.!?]+[.!?]?/)\<close>: the first match starts at the first character
  that is no sentence terminator, takes the whole run of such characters and the
  terminator after it when there is one. \<open>None\<close> is \<^verbatim>\<open>null\<close>.
\<close>

definition match_first_sentence :: "jsstring \<Rightarrow> jsstring option" where
  "match_first_sentence s =
     (let r = dropWhile is_term s
      in if r = [] then None
         else Some (takeWhile (\<lambda>c. \<not> is_term c) r @ take 1 (dropWhile (\<lambda>c. \<not> is_term c) r)))"

text \<open>The \<^verbatim>\<open>catch\<close> block of \<^verbatim>\<open>generateTitle\<close>.\<close>

definition title_fallback :: "jsstring \<Rightarrow> jsstring" where
  "title_fallback source =
     (let cleaned = trim (replace_runs is_ws [SPACE] source);
          firstSentence = trim (case match_first_sentence cleaned of None \<Rightarrow> [] | Some m \<Rightarrow> m);
          truncated = (if length firstSentence > 60
                       then trim (slice_to firstSentence 57) @ [ELLIPSIS]
                       else firstSentence)
      in sanitizeTitle (if truncated \<noteq> [] then truncated else slice_to cleaned 60))"

text \<open>
  The remote calls are parameters: a function from the request text to the completion
  or a failure. \<^verbatim>\<open>generateTitle\<close> returns the title together with the list of the
  requests it sent to the remote service.
\<close>

datatype error = RemoteCallFailure | HeuristicFailure

definition generateTitle ::
  "(jsstring \<Rightarrow> error + jsstring) \<Rightarrow> jsstring \<Rightarrow> jsstring \<times> jsstring list" where
  "generateTitle generateTitleWithDeepseek text =
     (let source = trim text
      in if source = [] then ([], [])
         else (case generateTitleWithDeepseek source of
                 Inr title \<Rightarrow> (sanitizeTitle title, [source])
               | Inl e \<Rightarrow> (title_fallback source, [source])))"

section \<open>The heuristic structurer\<close>

text \<open>
  The clean-up of \<^verbatim>\<open>formatAudioPenStyle\<close>, one function for each \<^verbatim>\<open>replace\<close>.
  \<^verbatim>\<open>.replace(/\s+([,.!?])/g, '$1')\<close>: a match starts at a white-space character
  whose run of white space is followed by a punctuation mark, and leaves the mark.
\<close>

function remove_space_before_punct :: "jsstring \<Rightarrow> jsstring" where
  "remove_space_before_punct [] = []"
| "remove_space_before_punct (c # cs) =
     (if is_ws c
      then (case dropWhile is_ws cs of
              [] \<Rightarrow> c # remove_space_before_punct cs
            | p # r \<Rightarrow> if is_punct p then p # remove_space_before_punct r
                       else c # remove_space_before_punct cs)
      else c # remove_space_before_punct cs)"
  by pat_completeness auto
termination
proof (relation "measure length", goal_cases)
  case 1
  show ?case by simp
next
  case (2 c cs)
  show ?case by simp
next
  case (3 c cs p r)
  have "length (dropWhile is_ws cs) \<le> length cs"
    by (rule length_dropWhile_le)
  with 3 show ?case by simp
next
  case (4 c cs p r)
  show ?case by simp
next
  case (5 c cs)
  show ?case by simp
qed

text \<open>
  \<^verbatim>\<open>.replace(/([,.!?])([^\s])/g, '$1 $2')\<close>: a match is a punctuation mark and a
  following character that is no white space; the search goes on after that character.
\<close>

fun add_space_after_punct :: "jsstring \<Rightarrow> jsstring" where
  "add_space_after_punct (p # c # cs) =
     (if is_punct p \<and> \<not> is_ws c then p # SPACE # c # add_space_after_punct cs
      else p # add_space_after_punct (c # cs))"
| "add_space_after_punct cs = cs"

definition clean_text :: "jsstring \<Rightarrow> jsstring" where
  "clean_text text =
     trim (add_space_after_punct (remove_space_before_punct (replace_runs is_ws [SPACE] text)))"

text \<open>
  \<^verbatim>\<open>cleaned.split(/(?<=[.!?])\s+/)\<close>: the text is cut at every run of white space
  that follows a sentence terminator, and the run is dropped. The first argument is the
  piece being read.
\<close>

function split_sentences :: "jsstring \<Rightarrow> jsstring \<Rightarrow> jsstring list" where
  "split_sentences cur [] = [cur]"
| "split_sentences cur (c # cs) =
     (if is_term c \<and> cs \<noteq> [] \<and> is_ws (hd cs)
      then (cur @ [c]) # split_sentences [] (dropWhile is_ws cs)
      else split_sentences (cur @ [c]) cs)"
  by pat_completeness auto
termination
  by (relation "measure (\<lambda>(cur, s). length s)")
     (auto simp: length_dropWhile_le le_imp_less_Suc)

text \<open>\<^verbatim>\<open>isTopicChange\<close>; the first sentence is not used.\<close>

definition transitionWords :: "jsstring list" where
  "transitionWords =
     [js ''however'', js ''but'', js ''also'', js ''additionally'', js ''furthermore'',
      js ''meanwhile'', js ''next'', js ''then'', js ''now'', js ''lekin'', js ''par'',
      js ''aur'', js ''phir'']"

definition isTopicChange :: "jsstring \<Rightarrow> jsstring \<Rightarrow> bool" where
  "isTopicChange sentence1 sentence2 =
     (let lower2 = toLowerCase sentence2
      in list_ex (\<lambda>word. startsWith lower2 word) transitionWords)"

text \<open>
  \<^verbatim>\<open>formatNaturalStyle\<close>: the loop over the sentences carries \<^verbatim>\<open>result\<close> and
  \<^verbatim>\<open>currentParagraph\<close>; the list is what is left from index \<open>i\<close> on.
\<close>

fun natural_loop :: "jsstring \<Rightarrow> jsstring list \<Rightarrow> jsstring list \<Rightarrow> jsstring" where
  "natural_loop result currentParagraph [] = result"
| "natural_loop result currentParagraph (sentence # rest) =
     (let paragraph = currentParagraph @ [sentence];
          shouldBreak = (length paragraph \<ge> 4 \<or>
                         (rest \<noteq> [] \<and> isTopicChange sentence (hd rest)))
      in if shouldBreak \<or> rest = []
         then natural_loop (result @ join [SPACE] paragraph @ [LF, LF]) [] rest
         else natural_loop result paragraph rest)"

definition formatNaturalStyle :: "jsstring list \<Rightarrow> jsstring" where
  "formatNaturalStyle sentences = trim (natural_loop [] [] sentences)"

text \<open>
  \<^verbatim>\<open>formatListStyle\<close>; \<^verbatim>\<open>s.replace(/^[-\<bullet>*]\s*/, '')\<close> removes a leading list
  marker and the white space after it.
\<close>

definition strip_marker :: "jsstring \<Rightarrow> jsstring" where
  "strip_marker s =
     (case s of
        [] \<Rightarrow> []
      | c # cs \<Rightarrow> if c = 0x2D \<or> c = BULLET \<or> c = 0x2A then dropWhile is_ws cs else s)"

definition formatListStyle :: "jsstring list \<Rightarrow> jsstring" where
  "formatListStyle sentences =
     join [LF] (map (\<lambda>s. [BULLET, SPACE] @ trim (strip_marker s)) sentences)"

text \<open>
  \<^verbatim>\<open>formatMeetingStyle\<close>. The four arrays the \<^verbatim>\<open>forEach\<close> pushes to are a record;
  \<open>classify_step\<close> is the body of the callback.
\<close>

record buckets =
  actionItems :: "jsstring list"
  discussion :: "jsstring list"
  questions :: "jsstring list"
  other :: "jsstring list"

definition action_words :: "jsstring list" where
  "action_words =
     [js ''need to'', js ''should'', js ''must'', js ''will'', js ''going to'',
      js ''plan to'', js ''action'', js ''task'', js ''todo'', js ''karna'', js ''hoga'',
      js ''chahiye'']"

definition discussion_words :: "jsstring list" where
  "discussion_words =
     [js ''discuss'', js ''talk'', js ''review'', js ''decide'', js ''decided'',
      js ''agreed'', js ''baat'', js ''charcha'']"

text \<open>
  \<^verbatim>\<open>sentence.replace(/^(I|we|they|you|main|hum)\s+/i, '')\<close>: the first alternative
  that stands at the start and is followed by white space is removed with that white
  space.
\<close>

definition pronouns :: "jsstring list" where
  "pronouns = [js ''i'', js ''we'', js ''they'', js ''you'', js ''main'', js ''hum'']"

definition strip_pronoun :: "jsstring \<Rightarrow> jsstring" where
  "strip_pronoun s =
     (case find (\<lambda>w. startsWith (map lowerAscii s) w \<and>
                     (case drop (length w) s of [] \<Rightarrow> False | c # _ \<Rightarrow> is_ws c)) pronouns of
        None \<Rightarrow> s
      | Some w \<Rightarrow> dropWhile is_ws (drop (length w) s))"

definition classify_step :: "buckets \<Rightarrow> jsstring \<Rightarrow> buckets" where
  "classify_step b sentence =
     (let lower = toLowerCase sentence
      in if includes_js sentence (js ''?'')
         then b\<lparr>questions := questions b @ [sentence]\<rparr>
         else if test_ci action_words lower
         then b\<lparr>actionItems := actionItems b @ [strip_pronoun sentence]\<rparr>
         else if test_ci discussion_words lower
         then b\<lparr>discussion := discussion b @ [sentence]\<rparr>
         else b\<lparr>other := other b @ [sentence]\<rparr>)"

definition add_bullets :: "jsstring \<Rightarrow> jsstring list \<Rightarrow> jsstring" where
  "add_bullets result items =
     foldl (\<lambda>r item. r @ [BULLET, SPACE] @ item @ [LF]) result items"

definition add_notes :: "jsstring \<Rightarrow> jsstring list \<Rightarrow> jsstring" where
  "add_notes result items = foldl (\<lambda>r note. r @ note @ [LF, LF]) result items"

definition formatMeetingStyle :: "jsstring list \<Rightarrow> jsstring" where
  "formatMeetingStyle sentences =
     (let b = foldl classify_step
                \<lparr>actionItems = [], discussion = [], questions = [], other = []\<rparr> sentences;
          r0 = [];
          r1 = (if length (discussion b) > 0
                then add_bullets (r0 @ js ''Key Discussion Points:'' @ [LF, LF]) (discussion b) @ [LF]
                else r0);
          r2 = (if length (actionItems b) > 0
                then add_bullets (r1 @ js ''Action Items:'' @ [LF, LF]) (actionItems b) @ [LF]
                else r1);
          r3 = (if length (questions b) > 0
                then add_bullets (r2 @ js ''Questions:'' @ [LF, LF]) (questions b) @ [LF]
                else r2);
          r4 = (if length (other b) > 0
                then add_notes (r3 @ js ''Notes:'' @ [LF, LF]) (other b)
                else r3)
      in if trim r4 \<noteq> [] then trim r4 else join [SPACE] sentences)"

text \<open>
  \<^verbatim>\<open>formatAudioPenStyle\<close>. No operation in it raises on a string, so its result is a
  string.
\<close>

definition formatAudioPenStyle :: "jsstring \<Rightarrow> jsstring" where
  "formatAudioPenStyle text =
     (if text = [] \<or> trim text = [] then text
      else
        let cleaned = clean_text text;
            sentences = filter (\<lambda>s. length s > 0) (map trim (split_sentences [] cleaned))
        in if length sentences = 0 then cleaned
           else
             let isMeeting = test_ci [js ''meeting'', js ''discuss'', js ''agenda'', js ''action'',
                                      js ''follow-up'', js ''team'', js ''project''] cleaned;
                 isList = test_ci [js ''first'', js ''second'', js ''third'', js ''then'',
                                   js ''next'', js ''also'', js ''additionally'', js ''finally'',
                                   js ''pehle'', js ''phir'', js ''baad'', js ''uske''] cleaned;
                 hasActionItems = test_ci [js ''need to'', js ''should'', js ''must'', js ''will'',
                                           js ''going to'', js ''plan to'', js ''karna'',
                                           js ''hoga'', js ''chahiye''] cleaned
             in if isMeeting \<and> (hasActionItems \<or> isList) then formatMeetingStyle sentences
                else if isList \<or> length sentences > 5 then formatListStyle sentences
                else formatNaturalStyle sentences)"

text \<open>
  \<^verbatim>\<open>formatBasic\<close>; \<^verbatim>\<open>text.split(/[.!?]+/)\<close> cuts the text at every run of sentence
  terminators.
\<close>

function split_terminators :: "jsstring \<Rightarrow> jsstring \<Rightarrow> jsstring list" where
  "split_terminators cur [] = [cur]"
| "split_terminators cur (c # cs) =
     (if is_term c then cur # split_terminators [] (dropWhile is_term cs)
      else split_terminators (cur @ [c]) cs)"
  by pat_completeness auto
termination
  by (relation "measure (\<lambda>(cur, s). length s)")
     (auto simp: length_dropWhile_le le_imp_less_Suc)

definition formatBasic :: "jsstring \<Rightarrow> jsstring" where
  "formatBasic text =
     join [LF] (map (\<lambda>s. [BULLET, SPACE] @ trim s)
                    (filter (\<lambda>s. length (trim s) > 0) (split_terminators [] text)))"

text \<open>
  \<^verbatim>\<open>formatWithAI\<close>. \<open>formatWithAI_tiers\<close> is its nest of \<^verbatim>\<open>try\<close> and
  \<^verbatim>\<open>catch\<close> with the two calls that may throw as parameters; the function of the
  program calls the remote service first and \<^verbatim>\<open>formatAudioPenStyle\<close> second.
\<close>

definition formatWithAI_tiers ::
  "(jsstring \<Rightarrow> error + jsstring) \<Rightarrow> (jsstring \<Rightarrow> error + jsstring) \<Rightarrow> jsstring
     \<Rightarrow> error + jsstring" where
  "formatWithAI_tiers remote heuristic rawText =
     (case remote rawText of
        Inr formatted \<Rightarrow> Inr formatted
      | Inl e \<Rightarrow>
          (case heuristic rawText of
             Inr formatted \<Rightarrow> Inr formatted
           | Inl fallbackError \<Rightarrow> Inr (formatBasic rawText)))"

definition formatWithAI :: "(jsstring \<Rightarrow> error + jsstring) \<Rightarrow> jsstring \<Rightarrow> error + jsstring" where
  "formatWithAI formatWithDeepseek rawText =
     formatWithAI_tiers formatWithDeepseek (\<lambda>text. Inr (formatAudioPenStyle text)) rawText"

section \<open>Notions used to state the properties\<close>

text \<open>
  The four buckets of the meeting style, in the words of the specification: a sentence
  is a question if it contains \<open>?\<close>, else an action item if it matches the intent
  phrasing, else a discussion point if it matches the discussion phrasing, else a note.
\<close>

datatype bucket = Question | ActionItem | Discussion | Note

definition bucket_of :: "jsstring \<Rightarrow> bucket" where
  "bucket_of sentence =
     (if 0x3F \<in> set sentence then Question
      else if test_ci action_words (toLowerCase sentence) then ActionItem
      else if test_ci discussion_words (toLowerCase sentence) then Discussion
      else Note)"

text \<open>
  A labelled section of bullets, and the section of notes; an empty bucket gives no
  section.
\<close>

definition labelled_section :: "jsstring \<Rightarrow> jsstring list \<Rightarrow> jsstring" where
  "labelled_section label items =
     (if items = [] then []
      else label @ [LF, LF] @ concat (map (\<lambda>item. [BULLET, SPACE] @ item @ [LF]) items) @ [LF])"

definition notes_section :: "jsstring list \<Rightarrow> jsstring" where
  "notes_section items =
     (if items = [] then []
      else js ''Notes:'' @ [LF, LF] @ concat (map (\<lambda>note. note @ [LF, LF]) items))"

text \<open>
  The first sentence in the words of the specification, the text up to the first
  \<open>.\<close>, \<open>!\<close> or \<open>?\<close> with that character, and the title made of a sentence:
  cut to 57 characters and an ellipsis when it is longer than 60, then sanitized.
\<close>

definition text_up_to_terminator :: "jsstring \<Rightarrow> jsstring" where
  "text_up_to_terminator s =
     takeWhile (\<lambda>c. \<not> is_term c) s @ take 1 (dropWhile (\<lambda>c. \<not> is_term c) s)"

definition title_of_sentence :: "jsstring \<Rightarrow> jsstring" where
  "title_of_sentence sentence =
     sanitizeTitle (if length sentence > 60 then trim (take 57 sentence) @ [ELLIPSIS]
                    else sentence)"

text \<open>
  Invariants of the clean-up: no two white-space characters in a row; no white space
  before white space or punctuation; every white-space character is a space.
\<close>

fun no_ws_pair :: "jsstring \<Rightarrow> bool" where
  "no_ws_pair (a # b # cs) = (\<not> (is_ws a \<and> is_ws b) \<and> no_ws_pair (b # cs))"
| "no_ws_pair cs = True"

fun tidy :: "jsstring \<Rightarrow> bool" where
  "tidy (a # b # cs) = (\<not> (is_ws a \<and> (is_ws b \<or> is_punct b)) \<and> tidy (b # cs))"
| "tidy cs = True"

definition only_spaces :: "jsstring \<Rightarrow> bool" where
  "only_spaces s = (\<forall>c \<in> set s. is_ws c \<longrightarrow> c = SPACE)"

section \<open>Properties of the reconciler\<close>

lemma startsWith_prefix: "startsWith s t = prefix t s"
  by (auto simp: startsWith_def prefix_def) (metis append_eq_conv_conj)

lemma includes_sublist: "includes_js s t = sublist t s"
proof (induction s)
  case Nil
  then show ?case by simp
next
  case (Cons c cs)
  then show ?case
    by (cases t) (auto simp: startsWith_prefix sublist_Cons_right)
qed

lemma overlap_loop_sites: "overlap_loop_button p i n = overlap_loop p i n"
  by (induction n) simp_all

lemma merge_sites: "mergeTranscripts_button p i = mergeTranscripts p i"
  by (simp add: mergeTranscripts_button_def mergeTranscripts_def overlap_loop_sites)

text \<open>
  Claim C4. An empty incoming fragment leaves the buffer as it is, and with an empty
  buffer the incoming fragment becomes the buffer, at both copies of the function.
\<close>

theorem merge_empty_identity:
  "mergeTranscripts p [] = p \<and> mergeTranscripts [] p = p \<and>
   mergeTranscripts_button p [] = p \<and> mergeTranscripts_button [] p = p"
  by (simp add: mergeTranscripts_def mergeTranscripts_button_def)

lemma slice_match_iff:
  assumes "k \<le> length p" "k \<le> length i"
  shows "slice_last p k = slice_to i k \<longleftrightarrow> (\<exists>ov. length ov = k \<and> suffix ov p \<and> prefix ov i)"
proof
  assume m: "slice_last p k = slice_to i k"
  have "suffix (drop (length p - k) p) p" by (rule suffix_drop)
  with m have "suffix (take k i) p" by (simp add: slice_last_def slice_to_def)
  moreover have "prefix (take k i) i" by (rule take_is_prefix)
  moreover have "length (take k i) = k" using assms by simp
  ultimately show "\<exists>ov. length ov = k \<and> suffix ov p \<and> prefix ov i"
    by blast
next
  assume "\<exists>ov. length ov = k \<and> suffix ov p \<and> prefix ov i"
  then obtain ov a b where "length ov = k" "p = a @ ov" "i = ov @ b"
    by (auto simp: suffix_def prefix_def)
  then show "slice_last p k = slice_to i k"
    by (simp add: slice_last_def slice_to_def)
qed

lemma overlap_loop_None:
  "overlap_loop p i n = None \<longleftrightarrow> (\<forall>k. 0 < k \<and> k \<le> n \<longrightarrow> slice_last p k \<noteq> slice_to i k)"
proof (induction n)
  case 0
  then show ?case by simp
next
  case (Suc n)
  show ?case
  proof (cases "slice_last p (Suc n) = slice_to i (Suc n)")
    case True
    then show ?thesis by auto
  next
    case False
    have "(\<forall>k. 0 < k \<and> k \<le> Suc n \<longrightarrow> slice_last p k \<noteq> slice_to i k) \<longleftrightarrow>
          (\<forall>k. 0 < k \<and> k \<le> n \<longrightarrow> slice_last p k \<noteq> slice_to i k)"
      using False by (metis le_Suc_eq)
    with False Suc show ?thesis by simp
  qed
qed

lemma overlap_loop_first:
  assumes "0 < k" "k \<le> n" "slice_last p k = slice_to i k"
    and "\<forall>j. k < j \<and> j \<le> n \<longrightarrow> slice_last p j \<noteq> slice_to i j"
  shows "overlap_loop p i n = Some (p @ slice_from i k)"
  using assms
proof (induction n)
  case 0
  then show ?case by simp
next
  case (Suc n)
  show ?case
  proof (cases "k = Suc n")
    case True
    with Suc.prems show ?thesis by simp
  next
    case False
    with Suc.prems have kn: "k \<le> n" by simp
    from Suc.prems False have "slice_last p (Suc n) \<noteq> slice_to i (Suc n)" by auto
    moreover have "overlap_loop p i n = Some (p @ slice_from i k)"
      using Suc.IH[OF Suc.prems(1) kn Suc.prems(3)] Suc.prems(4) by auto
    ultimately show ?thesis by simp
  qed
qed

lemma overlap_loop_Some:
  "overlap_loop p i n = Some r \<Longrightarrow>
     \<exists>k. 0 < k \<and> k \<le> n \<and> slice_last p k = slice_to i k \<and> r = p @ slice_from i k"
proof (induction n)
  case 0
  then show ?case by simp
next
  case (Suc n)
  then show ?case
    by (cases "slice_last p (Suc n) = slice_to i (Suc n)") (auto simp: le_Suc_eq)
qed

lemma merge_general_case:
  assumes "p \<noteq> []" "i \<noteq> []" "\<not> sublist p i" "\<not> sublist i p"
  shows "mergeTranscripts p i =
     (case overlap_loop p i (min (length p) (length i)) of
        Some merged \<Rightarrow> merged
      | None \<Rightarrow> p @ (if endsWith p [SPACE] then [] else [SPACE]) @ i)"
  using assms by (auto simp: mergeTranscripts_def includes_sublist startsWith_prefix)

lemma endsWith_last: "p \<noteq> [] \<Longrightarrow> endsWith p [c] \<longleftrightarrow> last p = c"
proof -
  assume "p \<noteq> []"
  then obtain q x where p: "p = q @ [x]" by (metis rev_exhaust)
  show ?thesis by (simp add: p endsWith_def)
qed

lemma merge_keeps_previous: "sublist p (mergeTranscripts p i)"
proof -
  have "sublist p r" if "overlap_loop p i n = Some r" for n r
    using overlap_loop_Some[OF that] by auto
  then show ?thesis
    by (auto simp: mergeTranscripts_def includes_sublist startsWith_prefix
             split: option.splits intro: sublist_appendI[of p "[]", simplified])
qed

lemma merge_branches:
  "sublist i (mergeTranscripts p i) \<and>
   (i \<noteq> [] \<and> \<not> sublist p i \<and> sublist i p \<longrightarrow> mergeTranscripts p i = p) \<and>
   (\<not> (i \<noteq> [] \<and> \<not> sublist p i \<and> sublist i p) \<longrightarrow> suffix i (mergeTranscripts p i))"
proof -
  have ov: "suffix i r" if "overlap_loop p i (min (length p) (length i)) = Some r" for r
  proof -
    from overlap_loop_Some[OF that] obtain k where
      k: "k \<le> min (length p) (length i)" "slice_last p k = slice_to i k" "r = p @ slice_from i k"
      by auto
    then have "p = take (length p - k) p @ take k i"
      by (metis append_take_drop_id slice_last_def slice_to_def)
    then have "r = take (length p - k) p @ take k i @ drop k i"
      using k(3) by (metis append.assoc slice_from_def)
    then show ?thesis by (simp add: suffix_def)
  qed
  consider (empty) "i = []" | (super) "i \<noteq> []" "sublist p i"
    | (stale) "i \<noteq> []" "\<not> sublist p i" "sublist i p"
    | (apart) "i \<noteq> []" "\<not> sublist p i" "\<not> sublist i p"
    by blast
  then show ?thesis
  proof cases
    case empty
    then show ?thesis by (simp add: mergeTranscripts_def)
  next
    case super
    then have "mergeTranscripts p i = i"
      by (simp add: mergeTranscripts_def includes_sublist startsWith_prefix)
    with super show ?thesis by simp
  next
    case stale
    then have "mergeTranscripts p i = p"
      by (auto simp: mergeTranscripts_def includes_sublist startsWith_prefix)
    with stale show ?thesis by simp
  next
    case apart
    then have "suffix i (mergeTranscripts p i)"
      using ov
      by (auto simp: mergeTranscripts_def includes_sublist startsWith_prefix suffix_def
               split: option.splits)
    with apart show ?thesis by (auto intro: suffix_imp_sublist)
  qed
qed

lemma onTranscript_keeps: "sublist (accumulated st) (accumulated (onTranscript st t))"
  by (simp add: onTranscript_def Let_def merge_keeps_previous)

lemma run_keeps: "sublist (accumulated st) (accumulated (foldl onTranscript st vs))"
proof (induction vs arbitrary: st)
  case Nil
  then show ?case by simp
next
  case (Cons v vs)
  have "sublist (accumulated st) (accumulated (onTranscript st v))"
    by (rule onTranscript_keeps)
  moreover have "sublist (accumulated (onTranscript st v))
                         (accumulated (foldl onTranscript (onTranscript st v) vs))"
    by (rule Cons.IH)
  ultimately show ?case
    using sublist_order.order_trans by auto
qed

lemma no_long_overlap:
  assumes "\<forall>j. k < j \<and> j \<le> min (length p) (length i) \<longrightarrow> slice_last p j \<noteq> slice_to i j"
  shows "\<not> (\<exists>ov. suffix ov p \<and> prefix ov i \<and> k < length ov)"
proof
  assume "\<exists>ov. suffix ov p \<and> prefix ov i \<and> k < length ov"
  then obtain ov where ov: "suffix ov p" "prefix ov i" "k < length ov" by blast
  then have le: "length ov \<le> length p" "length ov \<le> length i"
    by (simp_all add: suffix_length_le prefix_length_le)
  then have "slice_last p (length ov) = slice_to i (length ov)"
    using ov slice_match_iff[of "length ov" p i] by blast
  with assms ov(3) le show False by simp
qed

lemma all_interval_list:
  "(\<forall>j. k < j \<and> j \<le> n \<longrightarrow> P j) \<longleftrightarrow> list_all P [Suc k..<Suc n]"
proof -
  have "set [Suc k..<Suc n] = {j. k < j \<and> j \<le> n}" by auto
  then show ?thesis by (simp add: list_all_iff)
qed

text \<open>
  Claim C1. For non-empty \<open>previous\<close> and \<open>incoming\<close>: when \<open>incoming\<close> contains
  \<open>previous\<close> as a substring, and in particular as a prefix, the merge is \<open>incoming\<close>;
  otherwise, when \<open>previous\<close> contains \<open>incoming\<close>, the merge is \<open>previous\<close>.
\<close>

theorem merge_containment:
  assumes "previous \<noteq> []" "incoming \<noteq> []"
  shows "(sublist previous incoming \<longrightarrow> mergeTranscripts previous incoming = incoming) \<and>
         (prefix previous incoming \<longrightarrow> mergeTranscripts previous incoming = incoming) \<and>
         (\<not> sublist previous incoming \<and> sublist incoming previous \<longrightarrow>
            mergeTranscripts previous incoming = previous)"
  using assms
  by (auto simp: mergeTranscripts_def includes_sublist startsWith_prefix)

text \<open>The three cases at \<open>hello\<close>, \<open>hello world\<close> and \<open>lo wor\<close>.\<close>

theorem merge_containment_witness:
  "js ''hello'' \<noteq> [] \<and> js ''hello world'' \<noteq> [] \<and> js ''lo wor'' \<noteq> [] \<and>
   prefix (js ''hello'') (js ''hello world'') \<and>
   mergeTranscripts (js ''hello'') (js ''hello world'') = js ''hello world'' \<and>
   \<not> sublist (js ''hello world'') (js ''lo wor'') \<and>
   sublist (js ''lo wor'') (js ''hello world'') \<and>
   mergeTranscripts (js ''hello world'') (js ''lo wor'') = js ''hello world''"
proof -
  have ne: "js ''hello'' \<noteq> []" "js ''hello world'' \<noteq> []" "js ''lo wor'' \<noteq> []"
    by (simp_all add: js_def)
  have a: "prefix (js ''hello'') (js ''hello world'')"
    by (simp add: js_def)
  have b: "\<not> sublist (js ''hello world'') (js ''lo wor'')"
    by (simp only: includes_sublist[symmetric]) code_simp
  have c: "sublist (js ''lo wor'') (js ''hello world'')"
    by (simp only: includes_sublist[symmetric]) code_simp
  show ?thesis
    using ne a b c
      merge_containment[OF ne(1) ne(2)] merge_containment[OF ne(2) ne(3)]
    by blast
qed

text \<open>
  Claim C2, amended. For non-empty strings neither of which contains the other: when a
  non-empty suffix of \<open>previous\<close> is a prefix of \<open>incoming\<close>, the merge is \<open>previous\<close>
  followed by what \<open>incoming\<close> has after the longest such overlap; when there is no
  overlap, the merge is \<open>previous\<close>, a space unless \<open>previous\<close> ends with the space
  character U+0020, and \<open>incoming\<close>.
\<close>

theorem merge_overlap_or_concat:
  assumes "previous \<noteq> []" "incoming \<noteq> []"
    and "\<not> sublist previous incoming" "\<not> sublist incoming previous"
  shows "(\<forall>ov. ov \<noteq> [] \<and> suffix ov previous \<and> prefix ov incoming \<and>
               (\<forall>ov'. suffix ov' previous \<and> prefix ov' incoming \<longrightarrow> length ov' \<le> length ov) \<longrightarrow>
            mergeTranscripts previous incoming = previous @ drop (length ov) incoming) \<and>
         ((\<forall>ov. suffix ov previous \<and> prefix ov incoming \<longrightarrow> ov = []) \<longrightarrow>
            mergeTranscripts previous incoming =
              previous @ (if last previous = SPACE then [] else [SPACE]) @ incoming)"
proof (intro conjI allI impI)
  fix ov
  assume a: "ov \<noteq> [] \<and> suffix ov previous \<and> prefix ov incoming \<and>
             (\<forall>ov'. suffix ov' previous \<and> prefix ov' incoming \<longrightarrow> length ov' \<le> length ov)"
  let ?n = "min (length previous) (length incoming)"
  let ?k = "length ov"
  from a have k0: "0 < ?k" by simp
  from a have kn: "?k \<le> ?n"
    by (simp add: suffix_length_le prefix_length_le)
  have m: "slice_last previous ?k = slice_to incoming ?k"
    using a kn by (subst slice_match_iff) auto
  have later: "\<forall>j. ?k < j \<and> j \<le> ?n \<longrightarrow> slice_last previous j \<noteq> slice_to incoming j"
  proof (intro allI impI notI)
    fix j
    assume j: "?k < j \<and> j \<le> ?n" and "slice_last previous j = slice_to incoming j"
    then obtain ov' where "length ov' = j" "suffix ov' previous" "prefix ov' incoming"
      using slice_match_iff[of j previous incoming] by auto
    with a j show False by auto
  qed
  have "overlap_loop previous incoming ?n = Some (previous @ slice_from incoming ?k)"
    by (rule overlap_loop_first[OF k0 kn m later])
  then show "mergeTranscripts previous incoming = previous @ drop ?k incoming"
    by (simp add: merge_general_case[OF assms] slice_from_def)
next
  assume none: "\<forall>ov. suffix ov previous \<and> prefix ov incoming \<longrightarrow> ov = []"
  let ?n = "min (length previous) (length incoming)"
  have "\<forall>k. 0 < k \<and> k \<le> ?n \<longrightarrow> slice_last previous k \<noteq> slice_to incoming k"
  proof (intro allI impI notI)
    fix k
    assume k: "0 < k \<and> k \<le> ?n" and "slice_last previous k = slice_to incoming k"
    then obtain ov where "length ov = k" "suffix ov previous" "prefix ov incoming"
      using slice_match_iff[of k previous incoming] by auto
    with none k show False by auto
  qed
  then have "overlap_loop previous incoming ?n = None"
    by (simp add: overlap_loop_None)
  then show "mergeTranscripts previous incoming =
              previous @ (if last previous = SPACE then [] else [SPACE]) @ incoming"
    by (simp add: merge_general_case[OF assms] endsWith_last[OF assms(1)])
qed

text \<open>
  The two examples of the claim: \<open>hello wor\<close> and \<open>world peace\<close> overlap in \<open>wor\<close>
  and in nothing longer; \<open>foo\<close> and \<open>bar\<close> do not overlap.
\<close>

theorem merge_overlap_or_concat_witness:
  "\<not> sublist (js ''hello wor'') (js ''world peace'') \<and>
   \<not> sublist (js ''world peace'') (js ''hello wor'') \<and>
   suffix (js ''wor'') (js ''hello wor'') \<and> prefix (js ''wor'') (js ''world peace'') \<and>
   \<not> (\<exists>ov. suffix ov (js ''hello wor'') \<and> prefix ov (js ''world peace'') \<and> 3 < length ov) \<and>
   mergeTranscripts (js ''hello wor'') (js ''world peace'') = js ''hello world peace'' \<and>
   \<not> sublist (js ''foo'') (js ''bar'') \<and> \<not> sublist (js ''bar'') (js ''foo'') \<and>
   \<not> (\<exists>ov. suffix ov (js ''foo'') \<and> prefix ov (js ''bar'') \<and> 0 < length ov) \<and>
   mergeTranscripts (js ''foo'') (js ''bar'') = js ''foo bar''"
proof -
  let ?p = "js ''hello wor''" and ?i = "js ''world peace''" and ?ov = "js ''wor''"
  let ?f = "js ''foo''" and ?b = "js ''bar''"
  have ne: "?p \<noteq> []" "?i \<noteq> []" "?f \<noteq> []" "?b \<noteq> []" "?ov \<noteq> []"
    by (simp_all add: js_def)
  have s1: "\<not> sublist ?p ?i" and s2: "\<not> sublist ?i ?p"
   and s3: "\<not> sublist ?f ?b" and s4: "\<not> sublist ?b ?f"
    by (simp_all only: includes_sublist[symmetric]) code_simp+
  have o1: "suffix ?ov ?p" and o2: "prefix ?ov ?i"
    by (simp_all add: js_def suffix_def)
  have len: "length ?ov = 3" by (simp add: js_def)
  have "\<forall>j. 3 < j \<and> j \<le> min (length ?p) (length ?i) \<longrightarrow> slice_last ?p j \<noteq> slice_to ?i j"
    unfolding all_interval_list by code_simp
  then have m1: "\<not> (\<exists>ov. suffix ov ?p \<and> prefix ov ?i \<and> 3 < length ov)"
    by (rule no_long_overlap)
  have "\<forall>j. 0 < j \<and> j \<le> min (length ?f) (length ?b) \<longrightarrow> slice_last ?f j \<noteq> slice_to ?b j"
    unfolding all_interval_list by code_simp
  then have m2: "\<not> (\<exists>ov. suffix ov ?f \<and> prefix ov ?b \<and> 0 < length ov)"
    by (rule no_long_overlap)
  have max1: "\<forall>ov'. suffix ov' ?p \<and> prefix ov' ?i \<longrightarrow> length ov' \<le> length ?ov"
    using m1 len by (metis not_le_imp_less)
  have max2: "\<forall>ov. suffix ov ?f \<and> prefix ov ?b \<longrightarrow> ov = []"
    using m2 by auto
  have e1: "mergeTranscripts ?p ?i = ?p @ drop (length ?ov) ?i"
    using merge_overlap_or_concat[OF ne(1) ne(2) s1 s2] ne(5) o1 o2 max1 by blast
  have e2: "mergeTranscripts ?f ?b = ?f @ (if last ?f = SPACE then [] else [SPACE]) @ ?b"
    using merge_overlap_or_concat[OF ne(3) ne(4) s3 s4] max2 by blast
  have r1: "?p @ drop (length ?ov) ?i = js ''hello world peace''"
    by (simp add: js_def)
  have r2: "?f @ (if last ?f = SPACE then [] else [SPACE]) @ ?b = js ''foo bar''"
    by (simp add: js_def SPACE_def)
  show ?thesis
    using s1 s2 o1 o2 m1 s3 s4 m2 e1 e2 r1 r2 by simp
qed

text \<open>
  Claim C2 as stated fails on a buffer that ends with white space other than U+0020:
  after a tab the merge still inserts a space.
\<close>

theorem merge_separator_counterexample:
  "is_ws (last (js ''foo'' @ [0x09])) \<and>
   \<not> sublist (js ''foo'' @ [0x09]) (js ''bar'') \<and>
   \<not> sublist (js ''bar'') (js ''foo'' @ [0x09]) \<and>
   \<not> (\<exists>ov. suffix ov (js ''foo'' @ [0x09]) \<and> prefix ov (js ''bar'') \<and> 0 < length ov) \<and>
   mergeTranscripts (js ''foo'' @ [0x09]) (js ''bar'') = js ''foo'' @ [0x09, 0x20] @ js ''bar'' \<and>
   mergeTranscripts (js ''foo'' @ [0x09]) (js ''bar'') \<noteq> js ''foo'' @ [0x09] @ js ''bar''"
proof -
  let ?p = "js ''foo'' @ [0x09]" and ?i = "js ''bar''"
  have w: "is_ws (last ?p)" by (simp add: is_ws_def)
  have s1: "\<not> sublist ?p ?i" and s2: "\<not> sublist ?i ?p"
    by (simp_all only: includes_sublist[symmetric]) code_simp+
  have "\<forall>j. 0 < j \<and> j \<le> min (length ?p) (length ?i) \<longrightarrow> slice_last ?p j \<noteq> slice_to ?i j"
    unfolding all_interval_list by code_simp
  then have m: "\<not> (\<exists>ov. suffix ov ?p \<and> prefix ov ?i \<and> 0 < length ov)"
    by (rule no_long_overlap)
  have e: "mergeTranscripts ?p ?i = js ''foo'' @ [0x09, 0x20] @ js ''bar''"
    by code_simp
  have d: "js ''foo'' @ [0x09, 0x20] @ js ''bar'' \<noteq> js ''foo'' @ [0x09] @ js ''bar''"
    by (simp add: js_def)
  show ?thesis using w s1 s2 m e d by simp
qed

text \<open>
  Claim C3. \<open>previous\<close> is a substring of the merge of \<open>previous\<close> with any
  \<open>incoming\<close>; so the buffer after any updates \<open>us\<close> is a substring of the buffer after
  any further updates \<open>vs\<close>, and only the start of a session empties it.
\<close>

theorem confirmed_text_never_deleted:
  "sublist previous (mergeTranscripts previous incoming) \<and>
   sublist (accumulated (foldl onTranscript st us))
           (accumulated (foldl onTranscript st (us @ vs))) \<and>
   accumulated (startSession st) = []"
  by (simp add: merge_keeps_previous run_keeps startSession_def)

text \<open>
  Claim C9. The copy of \<^verbatim>\<open>mergeTranscripts\<close> in the recording-button component and
  the copy in the recording page return the same result on every input.
\<close>

theorem merge_sites_equal:
  "mergeTranscripts_button previous incoming = mergeTranscripts previous incoming"
  by (rule merge_sites)

text \<open>
  Claim C10. \<open>incoming\<close> is a substring of the merge, at both copies. The branch
  that returns \<open>previous\<close> because it contains \<open>incoming\<close> is taken when \<open>incoming\<close>
  is not empty, does not contain \<open>previous\<close> and is contained in it; in every other
  branch the merge ends with \<open>incoming\<close>.
\<close>

theorem incoming_never_dropped:
  "sublist incoming (mergeTranscripts previous incoming) \<and>
   (incoming \<noteq> [] \<and> \<not> sublist previous incoming \<and> sublist incoming previous \<longrightarrow>
      mergeTranscripts previous incoming = previous) \<and>
   (\<not> (incoming \<noteq> [] \<and> \<not> sublist previous incoming \<and> sublist incoming previous) \<longrightarrow>
      suffix incoming (mergeTranscripts previous incoming)) \<and>
   sublist incoming (mergeTranscripts_button previous incoming) \<and>
   (incoming \<noteq> [] \<and> \<not> sublist previous incoming \<and> sublist incoming previous \<longrightarrow>
      mergeTranscripts_button previous incoming = previous) \<and>
   (\<not> (incoming \<noteq> [] \<and> \<not> sublist previous incoming \<and> sublist incoming previous) \<longrightarrow>
      suffix incoming (mergeTranscripts_button previous incoming))"
  using merge_branches[of incoming previous] by (simp add: merge_sites)

text \<open>
  The overlap branch at \<open>hello wor\<close> and \<open>world peace\<close>, and the branch that
  returns \<open>previous\<close> at \<open>hello world\<close> and \<open>lo wor\<close>.
\<close>

theorem incoming_never_dropped_witness:
  "\<not> sublist (js ''world peace'') (js ''hello wor'') \<and>
   suffix (js ''world peace'') (mergeTranscripts (js ''hello wor'') (js ''world peace'')) \<and>
   suffix (js ''world peace'') (mergeTranscripts_button (js ''hello wor'') (js ''world peace'')) \<and>
   js ''lo wor'' \<noteq> [] \<and> \<not> sublist (js ''hello world'') (js ''lo wor'') \<and>
   sublist (js ''lo wor'') (js ''hello world'') \<and>
   mergeTranscripts (js ''hello world'') (js ''lo wor'') = js ''hello world'' \<and>
   mergeTranscripts_button (js ''hello world'') (js ''lo wor'') = js ''hello world''"
proof -
  have h: "\<not> sublist (js ''world peace'') (js ''hello wor'')"
    by (simp only: includes_sublist[symmetric]) code_simp
  have n: "js ''lo wor'' \<noteq> []" by (simp add: js_def)
  have b: "\<not> sublist (js ''hello world'') (js ''lo wor'')"
    by (simp only: includes_sublist[symmetric]) code_simp
  have c: "sublist (js ''lo wor'') (js ''hello world'')"
    by (simp only: includes_sublist[symmetric]) code_simp
  show ?thesis
    using h n b c incoming_never_dropped[of "js ''world peace''" "js ''hello wor''"]
      incoming_never_dropped[of "js ''lo wor''" "js ''hello world''"]
    by blast
qed

section \<open>Properties of the structurer\<close>

subsection \<open>Meeting style\<close>

lemma includes_single: "includes_js s [c] \<longleftrightarrow> c \<in> set s"
  by (induction s) (auto simp: startsWith_def)

lemma classify_step_bucket:
  "classify_step b s =
     (case bucket_of s of
        Question \<Rightarrow> b\<lparr>questions := questions b @ [s]\<rparr>
      | ActionItem \<Rightarrow> b\<lparr>actionItems := actionItems b @ [strip_pronoun s]\<rparr>
      | Discussion \<Rightarrow> b\<lparr>discussion := discussion b @ [s]\<rparr>
      | Note \<Rightarrow> b\<lparr>other := other b @ [s]\<rparr>)"
proof -
  have q: "includes_js s (js ''?'') \<longleftrightarrow> 0x3F \<in> set s"
    by (simp add: js_def includes_single)
  show ?thesis
    by (simp add: classify_step_def bucket_of_def q Let_def)
qed

lemma classify_fold:
  "foldl classify_step b ss =
     \<lparr>actionItems = actionItems b @ map strip_pronoun (filter (\<lambda>s. bucket_of s = ActionItem) ss),
      discussion = discussion b @ filter (\<lambda>s. bucket_of s = Discussion) ss,
      questions = questions b @ filter (\<lambda>s. bucket_of s = Question) ss,
      other = other b @ filter (\<lambda>s. bucket_of s = Note) ss\<rparr>"
proof (induction ss arbitrary: b)
  case Nil
  then show ?case by simp
next
  case (Cons s ss)
  have "foldl classify_step b (s # ss) = foldl classify_step (classify_step b s) ss"
    by simp
  also have "\<dots> =
     \<lparr>actionItems = actionItems (classify_step b s) @
                      map strip_pronoun (filter (\<lambda>s. bucket_of s = ActionItem) ss),
      discussion = discussion (classify_step b s) @ filter (\<lambda>s. bucket_of s = Discussion) ss,
      questions = questions (classify_step b s) @ filter (\<lambda>s. bucket_of s = Question) ss,
      other = other (classify_step b s) @ filter (\<lambda>s. bucket_of s = Note) ss\<rparr>"
    by (rule Cons.IH)
  finally have step: "foldl classify_step b (s # ss) =
     \<lparr>actionItems = actionItems (classify_step b s) @
                      map strip_pronoun (filter (\<lambda>s. bucket_of s = ActionItem) ss),
      discussion = discussion (classify_step b s) @ filter (\<lambda>s. bucket_of s = Discussion) ss,
      questions = questions (classify_step b s) @ filter (\<lambda>s. bucket_of s = Question) ss,
      other = other (classify_step b s) @ filter (\<lambda>s. bucket_of s = Note) ss\<rparr>" .
  show ?case
    unfolding step by (cases "bucket_of s") (simp_all add: classify_step_bucket)
qed

lemma add_bullets_concat:
  "add_bullets r items = r @ concat (map (\<lambda>item. [BULLET, SPACE] @ item @ [LF]) items)"
  unfolding add_bullets_def by (induction items arbitrary: r) simp_all

lemma add_notes_concat:
  "add_notes r items = r @ concat (map (\<lambda>note. note @ [LF, LF]) items)"
  unfolding add_notes_def by (induction items arbitrary: r) simp_all

lemma formatMeetingStyle_sections:
  "formatMeetingStyle sentences =
     (let body = trim
            (labelled_section (js ''Key Discussion Points:'')
               (filter (\<lambda>s. bucket_of s = Discussion) sentences) @
             labelled_section (js ''Action Items:'')
               (map strip_pronoun (filter (\<lambda>s. bucket_of s = ActionItem) sentences)) @
             labelled_section (js ''Questions:'')
               (filter (\<lambda>s. bucket_of s = Question) sentences) @
             notes_section (filter (\<lambda>s. bucket_of s = Note) sentences))
      in if body \<noteq> [] then body else join [SPACE] sentences)"
  by (simp add: formatMeetingStyle_def classify_fold add_bullets_concat add_notes_concat
        labelled_section_def notes_section_def Let_def)

lemma bucket_partition:
  "length (filter (\<lambda>s. bucket_of s = Question) ss) + length (filter (\<lambda>s. bucket_of s = ActionItem) ss) +
   length (filter (\<lambda>s. bucket_of s = Discussion) ss) + length (filter (\<lambda>s. bucket_of s = Note) ss) = length ss"
proof (induction ss)
  case Nil
  then show ?case by simp
next
  case (Cons s ss)
  then show ?case by (cases "bucket_of s") simp_all
qed

lemma meeting_example:
  "formatMeetingStyle [js ''We discussed the budget.'', js ''We need to finalize the report by Friday.'', js ''Is the deadline fixed?''] = js ''Key Discussion Points:'' @ [LF, LF, BULLET, SPACE] @ js ''We discussed the budget.'' @ [LF, LF] @ js ''Action Items:'' @ [LF, LF, BULLET, SPACE] @ js ''need to finalize the report by Friday.'' @ [LF, LF] @ js ''Questions:'' @ [LF, LF, BULLET, SPACE] @ js ''Is the deadline fixed?''"
  by code_simp

lemma ex_buckets:
  "bucket_of (js ''We discussed the budget.'') = Discussion"
  "bucket_of (js ''We need to finalize the report by Friday.'') = ActionItem"
  "bucket_of (js ''Is the deadline fixed?'') = Question"
  "strip_pronoun (js ''We need to finalize the report by Friday.'') = js ''need to finalize the report by Friday.''"
  by code_simp+

text \<open>
  Claim C6. The output of \<^verbatim>\<open>formatMeetingStyle\<close> is made of the sentences of each
  bucket in their order, every sentence in the one bucket that \<open>bucket_of\<close> gives it
  (question before action item before discussion before note), action items without
  their leading pronoun, as the sections Key Discussion Points, Action Items, Questions
  and Notes in this order, empty buckets left out. The three sentences of the example
  go to the discussion, the action items (without \<open>We\<close>) and the questions.
\<close>

theorem meeting_style_buckets:
  "formatMeetingStyle sentences =
     (let body = trim
            (labelled_section (js ''Key Discussion Points:'')
               (filter (\<lambda>s. bucket_of s = Discussion) sentences) @
             labelled_section (js ''Action Items:'')
               (map strip_pronoun (filter (\<lambda>s. bucket_of s = ActionItem) sentences)) @
             labelled_section (js ''Questions:'')
               (filter (\<lambda>s. bucket_of s = Question) sentences) @
             notes_section (filter (\<lambda>s. bucket_of s = Note) sentences))
      in if body \<noteq> [] then body else join [SPACE] sentences) \<and>
   length (filter (\<lambda>s. bucket_of s = Question) sentences) +
   length (filter (\<lambda>s. bucket_of s = ActionItem) sentences) +
   length (filter (\<lambda>s. bucket_of s = Discussion) sentences) +
   length (filter (\<lambda>s. bucket_of s = Note) sentences) = length sentences \<and>
   bucket_of (js ''We discussed the budget.'') = Discussion \<and>
   bucket_of (js ''We need to finalize the report by Friday.'') = ActionItem \<and>
   strip_pronoun (js ''We need to finalize the report by Friday.'') =
     js ''need to finalize the report by Friday.'' \<and>
   bucket_of (js ''Is the deadline fixed?'') = Question \<and>
   formatMeetingStyle
     [js ''We discussed the budget.'', js ''We need to finalize the report by Friday.'',
      js ''Is the deadline fixed?''] =
     js ''Key Discussion Points:'' @ [LF, LF, BULLET, SPACE] @ js ''We discussed the budget.'' @
     [LF, LF] @
     js ''Action Items:'' @ [LF, LF, BULLET, SPACE] @
     js ''need to finalize the report by Friday.'' @ [LF, LF] @
     js ''Questions:'' @ [LF, LF, BULLET, SPACE] @ js ''Is the deadline fixed?''"
  using formatMeetingStyle_sections[of sentences] bucket_partition[of sentences]
    ex_buckets meeting_example
  by (simp only: simp_thms)

subsection \<open>The tiers of the structurer\<close>

text \<open>
  Claim C5. \<^verbatim>\<open>formatWithAI\<close> returns a string whatever the remote call and the
  heuristic structurer do: the result of the remote call when it succeeds, else the
  result of the heuristic structurer when that succeeds, else \<^verbatim>\<open>formatBasic\<close> of the
  text; with \<^verbatim>\<open>formatAudioPenStyle\<close> as the heuristic structurer a remote failure
  gives its result.
\<close>

theorem structure_never_raises:
  "(\<exists>s. formatWithAI_tiers remote heuristic rawText = Inr s) \<and>
   (\<forall>s. remote rawText = Inr s \<longrightarrow> formatWithAI_tiers remote heuristic rawText = Inr s) \<and>
   (\<forall>e s. remote rawText = Inl e \<and> heuristic rawText = Inr s \<longrightarrow>
      formatWithAI_tiers remote heuristic rawText = Inr s) \<and>
   (\<forall>e e'. remote rawText = Inl e \<and> heuristic rawText = Inl e' \<longrightarrow>
      formatWithAI_tiers remote heuristic rawText = Inr (formatBasic rawText)) \<and>
   (\<exists>s. formatWithAI remote rawText = Inr s) \<and>
   (\<forall>e. remote rawText = Inl e \<longrightarrow>
      formatWithAI remote rawText = Inr (formatAudioPenStyle rawText))"
  by (auto simp: formatWithAI_def formatWithAI_tiers_def split: sum.splits)

text \<open>
  Both tiers failing, and the remote call alone failing, on the empty string, a single
  character and a text without a sentence terminator.
\<close>

theorem structure_never_raises_witness:
  "formatWithAI_tiers (\<lambda>t. Inl RemoteCallFailure) (\<lambda>t. Inl HeuristicFailure) [] = Inr [] \<and>
   formatWithAI_tiers (\<lambda>t. Inl RemoteCallFailure) (\<lambda>t. Inl HeuristicFailure) (js ''a'') =
     Inr ([BULLET, SPACE] @ js ''a'') \<and>
   formatWithAI_tiers (\<lambda>t. Inl RemoteCallFailure) (\<lambda>t. Inl HeuristicFailure) (js ''no full stop'') =
     Inr ([BULLET, SPACE] @ js ''no full stop'') \<and>
   formatWithAI (\<lambda>t. Inl RemoteCallFailure) [] = Inr [] \<and>
   formatWithAI (\<lambda>t. Inl RemoteCallFailure) (js ''a'') = Inr (js ''a'') \<and>
   formatWithAI (\<lambda>t. Inl RemoteCallFailure) (js ''no full stop'') = Inr (js ''no full stop'')"
proof -
  let ?fail = "\<lambda>t::jsstring. (Inl RemoteCallFailure :: error + jsstring)"
  let ?hfail = "\<lambda>t::jsstring. (Inl HeuristicFailure :: error + jsstring)"
  have b: "formatBasic [] = []" "formatBasic (js ''a'') = [BULLET, SPACE] @ js ''a''"
    "formatBasic (js ''no full stop'') = [BULLET, SPACE] @ js ''no full stop''"
    by code_simp+
  have h: "formatAudioPenStyle [] = []" "formatAudioPenStyle (js ''a'') = js ''a''"
    "formatAudioPenStyle (js ''no full stop'') = js ''no full stop''"
    by code_simp+
  show ?thesis
    using structure_never_raises[of ?fail ?hfail "[]"]
      structure_never_raises[of ?fail ?hfail "js ''a''"]
      structure_never_raises[of ?fail ?hfail "js ''no full stop''"]
    by (simp add: b h)
qed

subsection \<open>The clean-up is idempotent\<close>

lemma punct_not_ws: "is_punct c \<Longrightarrow> \<not> is_ws c"
  by (auto simp: is_punct_def is_ws_def)

lemma ws_SPACE: "is_ws SPACE"
  by (simp add: is_ws_def SPACE_def)

lemma not_punct_SPACE: "\<not> is_punct SPACE"
  by (simp add: is_punct_def SPACE_def)

lemma no_ws_pair_Cons:
  "no_ws_pair (a # xs) \<longleftrightarrow> xs = [] \<or> (\<not> (is_ws a \<and> is_ws (hd xs)) \<and> no_ws_pair xs)"
  by (cases xs) simp_all

lemma tidy_Cons:
  "tidy (a # xs) \<longleftrightarrow>
     xs = [] \<or> (\<not> (is_ws a \<and> (is_ws (hd xs) \<or> is_punct (hd xs))) \<and> tidy xs)"
  by (cases xs) simp_all

lemma tidy_no_ws_pair: "tidy xs \<Longrightarrow> no_ws_pair xs"
  by (induction xs rule: tidy.induct) simp_all

lemma tidy_append: "tidy (xs @ ys) \<Longrightarrow> tidy xs \<and> tidy ys"
proof (induction xs rule: tidy.induct)
  case (1 a b cs)
  then show ?case by simp
next
  case "2_1"
  then show ?case by simp
next
  case "2_2"
  then show ?case by (cases ys) simp_all
qed

lemma no_ws_pair_append: "no_ws_pair (xs @ ys) \<Longrightarrow> no_ws_pair xs \<and> no_ws_pair ys"
proof (induction xs rule: no_ws_pair.induct)
  case (1 a b cs)
  then show ?case by simp
next
  case "2_1"
  then show ?case by simp
next
  case "2_2"
  then show ?case by (cases ys) simp_all
qed

lemma collapse_Nil_iff: "replace_runs is_ws [SPACE] s = [] \<longleftrightarrow> s = []"
  by (cases s) simp_all

lemma hd_collapse_dropWhile:
  "\<not> is_ws (hd (replace_runs is_ws [SPACE] (dropWhile is_ws cs)))
   \<or> replace_runs is_ws [SPACE] (dropWhile is_ws cs) = []"
proof (cases "dropWhile is_ws cs")
  case Nil
  show ?thesis unfolding Nil by simp
next
  case (Cons d ds)
  then have "\<not> is_ws d" by (metis hd_dropWhile list.distinct(1) list.sel(1))
  then show ?thesis unfolding Cons by simp
qed

lemma collapse_no_ws_pair: "no_ws_pair (replace_runs is_ws [SPACE] s)"
proof (induction "is_ws" "[SPACE]" s rule: replace_runs.induct)
  case 1
  then show ?case by simp
next
  case (2 c cs)
  show ?case
  proof (cases "is_ws c")
    case True
    with 2 hd_collapse_dropWhile[of cs] show ?thesis
      by (auto simp: no_ws_pair_Cons)
  next
    case False
    with 2 show ?thesis by (simp add: no_ws_pair_Cons)
  qed
qed

lemma collapse_only_spaces: "only_spaces (replace_runs is_ws [SPACE] s)"
  unfolding only_spaces_def
  by (induction "is_ws" "[SPACE]" s rule: replace_runs.induct) auto

lemma collapse_id: "only_spaces s \<Longrightarrow> no_ws_pair s \<Longrightarrow> replace_runs is_ws [SPACE] s = s"
proof (induction s)
  case Nil
  then show ?case by simp
next
  case (Cons c cs)
  then have ih: "replace_runs is_ws [SPACE] cs = cs"
    by (auto simp: only_spaces_def no_ws_pair_Cons)
  show ?case
  proof (cases "is_ws c")
    case True
    with Cons.prems have c: "c = SPACE" by (simp add: only_spaces_def)
    from True Cons.prems(2) have "cs = [] \<or> \<not> is_ws (hd cs)"
      by (auto simp: no_ws_pair_Cons)
    then have "dropWhile is_ws cs = cs" by (cases cs) auto
    with True c ih show ?thesis by simp
  next
    case False
    with ih show ?thesis by simp
  qed
qed

lemma rsp_nonws: "\<not> is_ws c \<Longrightarrow> remove_space_before_punct (c # cs) = c # remove_space_before_punct cs"
  by simp

lemma rsp_ws_end: "remove_space_before_punct [w] = [w]"
  by simp

lemma rsp_ws_punct:
  "is_ws w \<Longrightarrow> is_punct p \<Longrightarrow> remove_space_before_punct (w # p # r) = p # remove_space_before_punct r"
  by (simp add: punct_not_ws)

lemma rsp_ws_other:
  "is_ws w \<Longrightarrow> \<not> is_ws c \<Longrightarrow> \<not> is_punct c \<Longrightarrow>
     remove_space_before_punct (w # c # r) = w # c # remove_space_before_punct r"
  by simp

lemma rsp_ws:
  "is_ws c \<Longrightarrow> remove_space_before_punct (c # cs) =
     (case dropWhile is_ws cs of
        [] \<Rightarrow> c # remove_space_before_punct cs
      | p # r \<Rightarrow> if is_punct p then p # remove_space_before_punct r
                 else c # remove_space_before_punct cs)"
  by simp

lemma rsp_subset: "set (remove_space_before_punct s) \<subseteq> set s"
proof (induction s rule: remove_space_before_punct.induct)
  case 1
  then show ?case by simp
next
  case (2 c cs)
  show ?case
  proof (cases "is_ws c")
    case False
    with 2 show ?thesis by auto
  next
    case True
    show ?thesis
    proof (cases "dropWhile is_ws cs")
      case Nil
      from "2.IH"(1)[OF True Nil] show ?thesis
        unfolding rsp_ws[OF True] Nil by auto
    next
      case (Cons p r)
      have sub: "set (p # r) \<subseteq> set cs"
        by (metis Cons set_dropWhileD subsetI)
      show ?thesis
      proof (cases "is_punct p")
        case pp: True
        from "2.IH"(2)[OF True Cons pp] sub show ?thesis
          unfolding rsp_ws[OF True] Cons using pp by auto
      next
        case pf: False
        from "2.IH"(3)[OF True Cons pf] show ?thesis
          unfolding rsp_ws[OF True] Cons using pf by auto
      qed
    qed
  qed
qed

lemma rsp_only_spaces: "only_spaces s \<Longrightarrow> only_spaces (remove_space_before_punct s)"
  using rsp_subset[of s] by (auto simp: only_spaces_def)

lemma rsp_tidy: "no_ws_pair s \<Longrightarrow> tidy (remove_space_before_punct s)"
proof (induction s rule: remove_space_before_punct.induct)
  case 1
  then show ?case by simp
next
  case (2 c cs)
  show ?case
  proof (cases "is_ws c")
    case False
    from 2 have "tidy (remove_space_before_punct cs)"
      using False by (auto simp: no_ws_pair_Cons)
    with False show ?thesis by (simp add: tidy_Cons)
  next
    case True
    show ?thesis
    proof (cases cs)
      case Nil
      then show ?thesis by simp
    next
      case (Cons p r)
      with True "2.prems" have np: "\<not> is_ws p" and nr: "no_ws_pair (p # r)" by auto
      then have dw: "dropWhile is_ws cs = p # r" by (simp add: Cons)
      show ?thesis
      proof (cases "is_punct p")
        case pp: True
        from nr have "no_ws_pair r" by (auto simp: no_ws_pair_Cons)
        with "2.IH"(2)[OF True dw pp] have "tidy (remove_space_before_punct r)" .
        with True pp np show ?thesis by (simp add: Cons tidy_Cons)
      next
        case pf: False
        from "2.IH"(3)[OF True dw pf] nr have "tidy (remove_space_before_punct cs)"
          by (simp add: Cons)
        with True pf np show ?thesis by (simp add: Cons tidy_Cons)
      qed
    qed
  qed
qed

lemma asp_Cons_keep: "\<not> is_punct a \<Longrightarrow> add_space_after_punct (a # xs) = a # add_space_after_punct xs"
  by (cases xs) simp_all

lemma asp_ws_next: "is_ws c \<Longrightarrow> add_space_after_punct (a # c # xs) = a # add_space_after_punct (c # xs)"
  by simp

lemma asp_Nil_iff: "add_space_after_punct xs = [] \<longleftrightarrow> xs = []"
  by (induction xs rule: add_space_after_punct.induct) simp_all

lemma hd_asp: "hd (add_space_after_punct xs) = hd xs"
  by (induction xs rule: add_space_after_punct.induct) simp_all

lemma last_asp: "xs \<noteq> [] \<Longrightarrow> last (add_space_after_punct xs) = last xs"
  by (induction xs rule: add_space_after_punct.induct) (simp_all add: asp_Nil_iff)

lemma asp_subset: "set (add_space_after_punct xs) \<subseteq> insert SPACE (set xs)"
  by (induction xs rule: add_space_after_punct.induct) auto

lemma asp_only_spaces: "only_spaces xs \<Longrightarrow> only_spaces (add_space_after_punct xs)"
  using asp_subset[of xs] by (auto simp: only_spaces_def)

lemma asp_no_ws_pair: "no_ws_pair xs \<Longrightarrow> no_ws_pair (add_space_after_punct xs)"
proof (induction xs rule: add_space_after_punct.induct)
  case (1 p c cs)
  show ?case
  proof (cases "is_punct p \<and> \<not> is_ws c")
    case True
    from "1.prems" have "no_ws_pair cs" by (cases cs) simp_all
    with 1 True have "no_ws_pair (add_space_after_punct cs)" by simp
    moreover from "1.prems" have "cs = [] \<or> \<not> (is_ws c \<and> is_ws (hd cs))"
      by (auto simp: no_ws_pair_Cons)
    ultimately show ?thesis
      using True by (auto simp: no_ws_pair_Cons hd_asp asp_Nil_iff punct_not_ws)
  next
    case False
    with 1 have "no_ws_pair (add_space_after_punct (c # cs))" by simp
    moreover from "1.prems" have "\<not> (is_ws p \<and> is_ws c)" by simp
    ultimately show ?thesis
      using False hd_asp[of "c # cs"] by (auto simp: no_ws_pair_Cons)
  qed
qed simp_all

lemma asp_all_ws: "\<forall>c \<in> set ws. is_ws c \<Longrightarrow> add_space_after_punct ws = ws"
proof (induction ws)
  case Nil
  then show ?case by simp
next
  case (Cons w ws)
  then have "\<not> is_punct w" using punct_not_ws by auto
  with Cons show ?case by (simp add: asp_Cons_keep)
qed

lemma asp_append_ws:
  "\<forall>c \<in> set ws. is_ws c \<Longrightarrow> add_space_after_punct (ys @ ws) = add_space_after_punct ys @ ws"
proof (induction ys rule: add_space_after_punct.induct)
  case (1 p c cs)
  then show ?case by simp
next
  case "2_1"
  then show ?case by (simp add: asp_all_ws)
next
  case "2_2"
  then show ?case by (cases ws) (simp_all add: asp_all_ws)
qed

declare remove_space_before_punct.simps(2) [simp del]

lemma tidy_tl: "tidy (a # xs) \<Longrightarrow> tidy xs"
  by (cases xs) simp_all

lemma asp_match:
  "is_punct p \<Longrightarrow> \<not> is_ws c \<Longrightarrow>
     add_space_after_punct (p # c # cs) = p # SPACE # c # add_space_after_punct cs"
  by simp

lemma asp_no_match:
  "\<not> (is_punct p \<and> \<not> is_ws c) \<Longrightarrow>
     add_space_after_punct (p # c # cs) = p # add_space_after_punct (c # cs)"
  by auto

declare add_space_after_punct.simps(1) [simp del]

lemma hd_rsp_asp_ws:
  assumes "tidy (c # cs)" "is_ws c"
  shows "\<exists>rest. remove_space_before_punct (add_space_after_punct (c # cs)) = c # rest"
proof (cases cs)
  case Nil
  then show ?thesis by (simp add: rsp_ws_end)
next
  case (Cons d ds)
  with assms have d: "\<not> is_ws d" "\<not> is_punct d" by auto
  from assms(2) have "\<not> is_punct c" using punct_not_ws by auto
  then have "add_space_after_punct (c # cs) = c # d # add_space_after_punct ds"
    using d by (simp add: Cons asp_Cons_keep)
  then show ?thesis using assms(2) d by (simp add: rsp_ws_other)
qed

lemma asp_rsp_asp:
  "tidy x \<Longrightarrow> add_space_after_punct (remove_space_before_punct (add_space_after_punct x)) =
              add_space_after_punct x"
proof (induction x rule: add_space_after_punct.induct)
  case (1 p c cs)
  let ?r = "remove_space_before_punct (add_space_after_punct cs)"
  show ?case
  proof (cases "is_punct p \<and> \<not> is_ws c")
    case True
    then have pp: "is_punct p" and wc: "\<not> is_ws c" by simp_all
    from pp have pw: "\<not> is_ws p" by (rule punct_not_ws)
    from "1.prems" have "tidy cs" using tidy_tl by blast
    with "1.IH"(1)[OF True] have ih: "add_space_after_punct ?r = add_space_after_punct cs"
      by simp
    have a: "add_space_after_punct (p # c # cs) = p # SPACE # c # add_space_after_punct cs"
      by (rule asp_match[OF pp wc])
    show ?thesis
    proof (cases "is_punct c")
      case pc: True
      have "remove_space_before_punct (p # SPACE # c # add_space_after_punct cs) =
            p # remove_space_before_punct (SPACE # c # add_space_after_punct cs)"
        by (rule rsp_nonws[OF pw])
      also have "\<dots> = p # c # ?r"
        by (simp only: rsp_ws_punct[OF ws_SPACE pc])
      finally have "add_space_after_punct
                      (remove_space_before_punct (p # SPACE # c # add_space_after_punct cs)) =
                    add_space_after_punct (p # c # ?r)"
        by simp
      also have "\<dots> = p # SPACE # c # add_space_after_punct ?r"
        by (rule asp_match[OF pp wc])
      finally show ?thesis by (simp only: a ih)
    next
      case pc: False
      have "remove_space_before_punct (p # SPACE # c # add_space_after_punct cs) =
            p # remove_space_before_punct (SPACE # c # add_space_after_punct cs)"
        by (rule rsp_nonws[OF pw])
      also have "\<dots> = p # SPACE # c # ?r"
        by (simp only: rsp_ws_other[OF ws_SPACE wc pc])
      finally have "add_space_after_punct
                      (remove_space_before_punct (p # SPACE # c # add_space_after_punct cs)) =
                    add_space_after_punct (p # SPACE # c # ?r)"
        by simp
      also have "\<dots> = p # add_space_after_punct (SPACE # c # ?r)"
        by (rule asp_ws_next[OF ws_SPACE])
      also have "\<dots> = p # SPACE # add_space_after_punct (c # ?r)"
        by (simp only: asp_Cons_keep[OF not_punct_SPACE])
      also have "\<dots> = p # SPACE # c # add_space_after_punct ?r"
        by (simp only: asp_Cons_keep[OF pc])
      finally show ?thesis by (simp only: a ih)
    qed
  next
    case False
    let ?t = "remove_space_before_punct (add_space_after_punct (c # cs))"
    from "1.prems" have t: "tidy (c # cs)" by simp
    with "1.IH"(2)[OF False] have ih:
      "add_space_after_punct ?t = add_space_after_punct (c # cs)" by simp
    have a: "add_space_after_punct (p # c # cs) = p # add_space_after_punct (c # cs)"
      by (rule asp_no_match[OF False])
    have r: "remove_space_before_punct (p # add_space_after_punct (c # cs)) = p # ?t"
    proof (cases "is_ws p")
      case wp: True
      from wp "1.prems" have c: "\<not> is_ws c" "\<not> is_punct c" by auto
      have e: "add_space_after_punct (c # cs) = c # add_space_after_punct cs"
        by (rule asp_Cons_keep[OF c(2)])
      have "remove_space_before_punct (p # c # add_space_after_punct cs) =
            p # c # remove_space_before_punct (add_space_after_punct cs)"
        by (rule rsp_ws_other[OF wp c])
      also have "\<dots> = p # remove_space_before_punct (c # add_space_after_punct cs)"
        by (simp only: rsp_nonws[OF c(1)])
      finally show ?thesis by (simp only: e)
    next
      case wp: False
      then show ?thesis by (rule rsp_nonws)
    qed
    have "add_space_after_punct (p # ?t) = p # add_space_after_punct ?t"
    proof (cases "is_punct p")
      case pp: False
      then show ?thesis by (rule asp_Cons_keep)
    next
      case pp: True
      with False have wc: "is_ws c" by simp
      from hd_rsp_asp_ws[OF t wc] obtain rest where rest: "?t = c # rest" by blast
      show ?thesis unfolding rest by (rule asp_ws_next[OF wc])
    qed
    then show ?thesis by (simp only: a r ih)
  qed
next
  case "2_1"
  show ?case by simp
next
  case "2_2"
  show ?case by (simp add: rsp_ws_end)
qed

lemma rstrip_decomp: "s = rev (dropWhile P (rev s)) @ rev (takeWhile P (rev s))"
  by (metis rev_append rev_rev_ident takeWhile_dropWhile_id)

lemma rstrip_append:
  assumes "\<forall>c \<in> set ws. P c" "ys = [] \<or> \<not> P (last ys)"
  shows "rev (dropWhile P (rev (ys @ ws))) = ys"
proof -
  have "dropWhile P (rev ws @ rev ys) = dropWhile P (rev ys)"
    using assms(1) by (simp add: dropWhile_append)
  moreover have "dropWhile P (rev ys) = rev ys"
    using assms(2) by (cases ys rule: rev_cases) auto
  ultimately show ?thesis by simp
qed

lemma rstrip_clean: "rev (dropWhile P (rev s)) = [] \<or> \<not> P (last (rev (dropWhile P (rev s))))"
proof (cases "dropWhile P (rev s)")
  case Nil
  then show ?thesis by simp
next
  case (Cons d ds)
  then have "\<not> P d" by (metis hd_dropWhile list.distinct(1) list.sel(1))
  then show ?thesis unfolding Cons by simp
qed

lemma strip_ends:
  assumes "z = rev (dropWhile P (rev (dropWhile P s)))"
  shows "z = [] \<or> (\<not> P (hd z) \<and> \<not> P (last z))"
proof (cases "z = []")
  case True
  then show ?thesis by simp
next
  case False
  let ?d = "dropWhile P s"
  from rstrip_clean[of P ?d] have "z = [] \<or> \<not> P (last z)"
    unfolding assms .
  with False have l: "\<not> P (last z)" by blast
  have "?d = z @ rev (takeWhile P (rev ?d))"
    unfolding assms by (rule rstrip_decomp)
  then have "hd ?d = hd z" using False by (metis hd_append2)
  moreover have "?d \<noteq> []"
  proof
    assume e: "?d = []"
    have "z = []" unfolding assms e by simp
    with False show False by simp
  qed
  ultimately have "\<not> P (hd z)" by (metis hd_dropWhile)
  with l show ?thesis by simp
qed

lemma strip_id:
  assumes "s = [] \<or> (\<not> P (hd s) \<and> \<not> P (last s))"
  shows "rev (dropWhile P (rev (dropWhile P s))) = s"
proof (cases s)
  case Nil
  then show ?thesis by simp
next
  case (Cons a as)
  with assms have h: "\<not> P a" "\<not> P (last s)" by auto
  then have "dropWhile P s = s" by (simp add: Cons)
  moreover have "rev (dropWhile P (rev s)) = s"
    using rstrip_append[of "[]" P s] h(2) by simp
  ultimately show ?thesis by simp
qed

lemma dropWhile_asp: "dropWhile is_ws (add_space_after_punct x) = add_space_after_punct (dropWhile is_ws x)"
proof (induction x)
  case Nil
  then show ?case by simp
next
  case (Cons a xs)
  show ?case
  proof (cases "is_ws a")
    case True
    then have "\<not> is_punct a" using punct_not_ws by auto
    with True Cons show ?thesis by (simp add: asp_Cons_keep)
  next
    case False
    have "add_space_after_punct (a # xs) \<noteq> []" by (simp add: asp_Nil_iff)
    moreover have "hd (add_space_after_punct (a # xs)) = a" by (simp add: hd_asp)
    ultimately have "dropWhile is_ws (add_space_after_punct (a # xs)) = add_space_after_punct (a # xs)"
      using False by (cases "add_space_after_punct (a # xs)") auto
    with False show ?thesis by simp
  qed
qed

lemma rstrip_asp:
  "rev (dropWhile is_ws (rev (add_space_after_punct x))) =
   add_space_after_punct (rev (dropWhile is_ws (rev x)))"
proof -
  let ?y = "rev (dropWhile is_ws (rev x))" and ?ws = "rev (takeWhile is_ws (rev x))"
  have x: "x = ?y @ ?ws" by (rule rstrip_decomp)
  have ws: "\<forall>c \<in> set ?ws. is_ws c" by (auto dest: set_takeWhileD)
  have "add_space_after_punct x = add_space_after_punct ?y @ ?ws"
    using asp_append_ws[OF ws, of ?y] x by simp
  moreover have "add_space_after_punct ?y = [] \<or> \<not> is_ws (last (add_space_after_punct ?y))"
  proof (cases "?y = []")
    case True
    then show ?thesis by (simp only: add_space_after_punct.simps simp_thms)
  next
    case False
    with rstrip_clean[of is_ws x] have "\<not> is_ws (last ?y)" by blast
    with False show ?thesis by (simp only: last_asp simp_thms)
  qed
  ultimately show ?thesis
    using rstrip_append[OF ws] by simp
qed

lemma trim_asp: "trim (add_space_after_punct x) = add_space_after_punct (trim x)"
  by (simp add: trim_def dropWhile_asp rstrip_asp)

lemma trim_subset: "set (trim s) \<subseteq> set s"
  unfolding trim_def by (auto dest!: set_dropWhileD)

lemma trim_only_spaces: "only_spaces s \<Longrightarrow> only_spaces (trim s)"
  using trim_subset[of s] by (auto simp: only_spaces_def)

lemma trim_tidy: "tidy s \<Longrightarrow> tidy (trim s)"
proof -
  assume t: "tidy s"
  have "s = takeWhile is_ws s @ dropWhile is_ws s" by simp
  with t have "tidy (dropWhile is_ws s)" using tidy_append by metis
  moreover have "dropWhile is_ws s = trim s @ rev (takeWhile is_ws (rev (dropWhile is_ws s)))"
    unfolding trim_def by (rule rstrip_decomp)
  ultimately show ?thesis using tidy_append by metis
qed

lemma trim_ends: "trim s = [] \<or> (\<not> is_ws (hd (trim s)) \<and> \<not> is_ws (last (trim s)))"
  by (rule strip_ends[of "trim s" is_ws s]) (simp add: trim_def)

lemma trim_id: "s = [] \<or> (\<not> is_ws (hd s) \<and> \<not> is_ws (last s)) \<Longrightarrow> trim s = s"
  unfolding trim_def by (rule strip_id)

lemma clean_text_fixed:
  assumes "tidy e" "only_spaces e" "e = [] \<or> (\<not> is_ws (hd e) \<and> \<not> is_ws (last e))"
  shows "clean_text (add_space_after_punct e) = add_space_after_punct e"
proof -
  let ?n = "add_space_after_punct e"
  have "replace_runs is_ws [SPACE] ?n = ?n"
    using assms by (intro collapse_id asp_only_spaces asp_no_ws_pair tidy_no_ws_pair)
  moreover have "add_space_after_punct (remove_space_before_punct ?n) = ?n"
    by (rule asp_rsp_asp[OF assms(1)])
  moreover have "trim ?n = ?n"
  proof (rule trim_id)
    show "?n = [] \<or> (\<not> is_ws (hd ?n) \<and> \<not> is_ws (last ?n))"
      using assms(3) by (auto simp: asp_Nil_iff hd_asp last_asp)
  qed
  ultimately show ?thesis by (simp add: clean_text_def)
qed

text \<open>
  Claim C8. The clean-up of \<^verbatim>\<open>formatAudioPenStyle\<close> (collapse white space, remove it
  before punctuation, add a space after punctuation, trim) is idempotent.
\<close>

theorem clean_text_idempotent: "clean_text (clean_text t) = clean_text t"
proof -
  let ?b = "remove_space_before_punct (replace_runs is_ws [SPACE] t)"
  have b: "tidy ?b" "only_spaces ?b"
    by (simp_all add: rsp_tidy collapse_no_ws_pair rsp_only_spaces collapse_only_spaces)
  have c: "clean_text t = add_space_after_punct (trim ?b)"
    by (simp add: clean_text_def trim_asp)
  show ?thesis
    unfolding c
    by (rule clean_text_fixed) (simp_all add: b trim_tidy trim_only_spaces trim_ends)
qed

subsection \<open>The fallback title\<close>

lemma length_replace_runs: "length (replace_runs C [r] s) \<le> length s"
proof (induction C "[r]" s rule: replace_runs.induct)
  case (1 C)
  then show ?case by simp
next
  case (2 C c cs)
  show ?case
  proof (cases "C c")
    case True
    have "length (dropWhile C cs) \<le> length cs" by (rule length_dropWhile_le)
    with True 2 show ?thesis by simp
  next
    case False
    with 2 show ?thesis by simp
  qed
qed

lemma set_replace_runs: "x \<in> set (replace_runs C [r] s) \<Longrightarrow> x = r \<or> (x \<in> set s \<and> \<not> C x)"
proof (induction C "[r]" s rule: replace_runs.induct)
  case (1 C)
  then show ?case by simp
next
  case (2 C c cs)
  show ?case
  proof (cases "C c")
    case True
    with 2 have "x = r \<or> (x \<in> set (dropWhile C cs) \<and> \<not> C x)" by auto
    then show ?thesis by (auto dest: set_dropWhileD)
  next
    case False
    with 2 show ?thesis by auto
  qed
qed

lemma length_trim: "length (trim s) \<le> length s"
proof -
  have "length (trim s) \<le> length (dropWhile is_ws s)"
    unfolding trim_def using length_dropWhile_le[of is_ws "rev (dropWhile is_ws s)"] by simp
  also have "\<dots> \<le> length s" by (rule length_dropWhile_le)
  finally show ?thesis .
qed

lemma length_strip_quote_ws: "length (strip_quote_ws s) \<le> length s"
proof -
  have "length (strip_quote_ws s) \<le> length (dropWhile is_quote_ws s)"
    unfolding strip_quote_ws_def
    using length_dropWhile_le[of is_quote_ws "rev (dropWhile is_quote_ws s)"] by simp
  also have "\<dots> \<le> length s" by (rule length_dropWhile_le)
  finally show ?thesis .
qed

lemma strip_quote_ws_subset: "set (strip_quote_ws s) \<subseteq> set s"
  unfolding strip_quote_ws_def by (auto dest!: set_dropWhileD)

lemma length_sanitizeTitle: "length (sanitizeTitle x) \<le> length x"
proof -
  have "length (sanitizeTitle x) \<le> length (strip_quote_ws (replace_runs is_crlf [SPACE] x))"
    unfolding sanitizeTitle_def by (rule length_trim)
  also have "\<dots> \<le> length (replace_runs is_crlf [SPACE] x)" by (rule length_strip_quote_ws)
  also have "\<dots> \<le> length x" by (rule length_replace_runs)
  finally show ?thesis .
qed

lemma sanitizeTitle_no_newline: "c \<in> set (sanitizeTitle x) \<Longrightarrow> \<not> is_crlf c"
proof -
  assume "c \<in> set (sanitizeTitle x)"
  then have "c \<in> set (replace_runs is_crlf [SPACE] x)"
    unfolding sanitizeTitle_def using trim_subset strip_quote_ws_subset by blast
  then have "c = SPACE \<or> \<not> is_crlf c" using set_replace_runs by blast
  then show ?thesis by (auto simp: is_crlf_def SPACE_def)
qed

lemma sanitizeTitle_ends:
  "sanitizeTitle x = [] \<or>
   (\<not> is_quote_ws (hd (sanitizeTitle x)) \<and> \<not> is_quote_ws (last (sanitizeTitle x)))"
proof -
  let ?z = "strip_quote_ws (replace_runs is_crlf [SPACE] x)"
  have z: "?z = [] \<or> (\<not> is_quote_ws (hd ?z) \<and> \<not> is_quote_ws (last ?z))"
    by (rule strip_ends[of ?z is_quote_ws]) (simp add: strip_quote_ws_def)
  then have "?z = [] \<or> (\<not> is_ws (hd ?z) \<and> \<not> is_ws (last ?z))"
    by (auto simp: is_quote_ws_def)
  then have "trim ?z = ?z" by (rule trim_id)
  then have "sanitizeTitle x = ?z" by (simp add: sanitizeTitle_def)
  with z show ?thesis by simp
qed

lemma trim_Nil_iff: "trim s = [] \<longleftrightarrow> (\<forall>c \<in> set s. is_ws c)"
proof
  assume "trim s = []"
  then have "dropWhile is_ws (rev (dropWhile is_ws s)) = []"
    by (simp add: trim_def del: dropWhile_eq_Nil_conv)
  then have "\<forall>c \<in> set (dropWhile is_ws s). is_ws c"
    by (simp only: dropWhile_eq_Nil_conv set_rev)
  then have "dropWhile is_ws s = []"
    by (metis hd_dropWhile list.set_sel(1))
  then show "\<forall>c \<in> set s. is_ws c" by simp
next
  assume "\<forall>c \<in> set s. is_ws c"
  then have e: "dropWhile is_ws s = []" by simp
  show "trim s = []" unfolding trim_def e by simp
qed

lemma match_first_sentence_eq:
  "match_first_sentence s =
     (if dropWhile is_term s = [] then None
      else Some (text_up_to_terminator (dropWhile is_term s)))"
  by (simp add: match_first_sentence_def text_up_to_terminator_def Let_def)

lemma first_sentence_nonempty:
  assumes "cleaned = trim u" "dropWhile is_term cleaned \<noteq> []"
  shows "trim (text_up_to_terminator (dropWhile is_term cleaned)) \<noteq> []"
proof -
  let ?b = "dropWhile is_term cleaned"
  let ?nt = "\<lambda>c. \<not> is_term c"
  have tw: "\<not> is_ws t" if "is_term t" for t
    using that by (auto simp: is_term_def is_ws_def)
  have "\<exists>c \<in> set (text_up_to_terminator ?b). \<not> is_ws c"
  proof (cases "dropWhile ?nt ?b")
    case Nil
    then have all: "takeWhile ?nt ?b = ?b" by (metis append_Nil2 takeWhile_dropWhile_id)
    have "cleaned = takeWhile is_term cleaned @ ?b" by simp
    then have "last cleaned = last ?b" using assms(2) by (metis last_appendR)
    moreover have "cleaned \<noteq> []" using assms(2) by auto
    ultimately have "\<not> is_ws (last ?b)" using trim_ends[of u] assms(1) by auto
    moreover have "last ?b \<in> set ?b" using assms(2) by simp
    ultimately show ?thesis
      unfolding text_up_to_terminator_def Nil all by auto
  next
    case (Cons d ds)
    then have "is_term d" by (metis (mono_tags, lifting) hd_dropWhile list.distinct(1) list.sel(1))
    then have "\<not> is_ws d" by (rule tw)
    then show ?thesis unfolding text_up_to_terminator_def Cons by auto
  qed
  then show ?thesis by (simp add: trim_Nil_iff)
qed

lemma title_fallback_cases:
  "title_fallback source =
     (let cleaned = trim (replace_runs is_ws [SPACE] source);
          body = dropWhile is_term cleaned
      in if body = [] then sanitizeTitle (take 60 cleaned)
         else title_of_sentence (trim (text_up_to_terminator body)))"
proof -
  let ?c = "trim (replace_runs is_ws [SPACE] source)"
  let ?b = "dropWhile is_term ?c"
  show ?thesis
  proof (cases "?b = []")
    case True
    have "trim [] = []" by (simp add: trim_def)
    with True show ?thesis
      by (simp add: title_fallback_def match_first_sentence_eq Let_def slice_to_def
            del: dropWhile_eq_Nil_conv)
  next
    case False
    let ?s = "trim (text_up_to_terminator ?b)"
    have ne: "?s \<noteq> []" by (rule first_sentence_nonempty[OF refl False])
    then show ?thesis
      using False
      by (simp add: title_fallback_def match_first_sentence_eq Let_def slice_to_def
            title_of_sentence_def del: dropWhile_eq_Nil_conv)
  qed
qed

lemma length_title_of_sentence: "length (title_of_sentence s) \<le> 60"
proof -
  let ?x = "if length s > 60 then trim (take 57 s) @ [ELLIPSIS] else s"
  have "length (trim (take 57 s)) \<le> 57"
    using length_trim[of "take 57 s"] by simp
  then have "length ?x \<le> 60" by simp
  with length_sanitizeTitle[of ?x] show ?thesis
    unfolding title_of_sentence_def by linarith
qed

lemma length_title_fallback: "length (title_fallback source) \<le> 60"
proof -
  have "length (sanitizeTitle (take 60 c)) \<le> 60" for c
    using length_sanitizeTitle[of "take 60 c"] by simp
  then show ?thesis
    by (simp add: title_fallback_cases Let_def length_title_of_sentence)
qed

lemma title_fallback_sanitized: "\<exists>x. title_fallback source = sanitizeTitle x"
  by (simp add: title_fallback_def Let_def) blast

text \<open>
  Claim C7, amended. A text that is empty after trimming gives the empty title and no
  remote request. When the remote call fails, the title is made of the first sentence
  of the collapsed text, where terminators at the very start are skipped: the text from
  the first other character up to the next terminator, with it; a collapsed text of
  terminators only gives its first 60 characters, sanitized. In every case the title
  has at most 60 characters, no carriage return or line feed, and neither starts nor
  ends with a quote or white space.
\<close>

theorem generateTitle_fallback:
  "(trim text = [] \<longrightarrow> generateTitle remote text = ([], [])) \<and>
   (trim text \<noteq> [] \<and> remote (trim text) = Inl e \<longrightarrow>
      (let cleaned = trim (replace_runs is_ws [SPACE] (trim text));
           body = dropWhile is_term cleaned;
           title = fst (generateTitle remote text)
       in (body \<noteq> [] \<longrightarrow> title = title_of_sentence (trim (text_up_to_terminator body))) \<and>
          (body = [] \<longrightarrow> title = sanitizeTitle (take 60 cleaned)) \<and>
          length title \<le> 60 \<and>
          (\<forall>c \<in> set title. \<not> is_crlf c) \<and>
          (title \<noteq> [] \<longrightarrow> \<not> is_quote_ws (hd title) \<and> \<not> is_quote_ws (last title))))"
proof (intro conjI impI)
  assume "trim text = []"
  then show "generateTitle remote text = ([], [])"
    by (simp add: generateTitle_def)
next
  assume a: "trim text \<noteq> [] \<and> remote (trim text) = Inl e"
  let ?c = "trim (replace_runs is_ws [SPACE] (trim text))"
  let ?t = "fst (generateTitle remote text)"
  from a have t: "?t = title_fallback (trim text)"
    by (simp add: generateTitle_def Let_def)
  obtain x where x: "?t = sanitizeTitle x"
    using title_fallback_sanitized[of "trim text"] t by auto
  have 1: "dropWhile is_term ?c \<noteq> [] \<longrightarrow>
           ?t = title_of_sentence (trim (text_up_to_terminator (dropWhile is_term ?c)))"
    unfolding t title_fallback_cases[of "trim text"] Let_def by simp
  have 2: "dropWhile is_term ?c = [] \<longrightarrow> ?t = sanitizeTitle (take 60 ?c)"
    unfolding t title_fallback_cases[of "trim text"] Let_def by simp
  have 3: "length ?t \<le> 60"
    unfolding t by (rule length_title_fallback)
  have 4: "\<forall>c \<in> set ?t. \<not> is_crlf c"
    unfolding x using sanitizeTitle_no_newline by blast
  have 5: "?t \<noteq> [] \<longrightarrow> \<not> is_quote_ws (hd ?t) \<and> \<not> is_quote_ws (last ?t)"
    unfolding x using sanitizeTitle_ends[of x] by blast
  show "let cleaned = ?c; body = dropWhile is_term cleaned; title = ?t
        in (body \<noteq> [] \<longrightarrow> title = title_of_sentence (trim (text_up_to_terminator body))) \<and>
           (body = [] \<longrightarrow> title = sanitizeTitle (take 60 cleaned)) \<and>
           length title \<le> 60 \<and>
           (\<forall>c \<in> set title. \<not> is_crlf c) \<and>
           (title \<noteq> [] \<longrightarrow> \<not> is_quote_ws (hd title) \<and> \<not> is_quote_ws (last title))"
    unfolding Let_def using 1 2 3 4 5 by blast
qed

text \<open>
  A blank text, the example of the specification, and a sentence of 62 characters that
  is cut.
\<close>

theorem generateTitle_fallback_witness:
  "trim (js ''   '') = [] \<and>
   generateTitle (\<lambda>t. Inl RemoteCallFailure) (js ''   '') = ([], []) \<and>
   trim (js ''um so basically we need to ship this by Friday. Then we celebrate.'') \<noteq> [] \<and>
   fst (generateTitle (\<lambda>t. Inl RemoteCallFailure)
          (js ''um so basically we need to ship this by Friday. Then we celebrate.'')) =
     js ''um so basically we need to ship this by Friday.'' \<and>
   length (fst (generateTitle (\<lambda>t. Inl RemoteCallFailure)
          (js ''um so basically we need to ship this by Friday. Then we celebrate.''))) \<le> 60 \<and>
   trim (js ''this is a very long sentence that keeps going on and on and on'') \<noteq> [] \<and>
   fst (generateTitle (\<lambda>t. Inl RemoteCallFailure)
          (js ''this is a very long sentence that keeps going on and on and on'')) =
     js ''this is a very long sentence that keeps going on and on a'' @ [ELLIPSIS] \<and>
   length (fst (generateTitle (\<lambda>t. Inl RemoteCallFailure)
          (js ''this is a very long sentence that keeps going on and on and on''))) \<le> 60"
proof -
  let ?fail = "\<lambda>t::jsstring. (Inl RemoteCallFailure :: error + jsstring)"
  let ?e = "js ''   ''"
  let ?t = "js ''um so basically we need to ship this by Friday. Then we celebrate.''"
  let ?l = "js ''this is a very long sentence that keeps going on and on and on''"
  have e: "trim ?e = []" by code_simp
  have nt: "trim ?t \<noteq> []" and nl: "trim ?l \<noteq> []" by code_simp+
  have vt: "fst (generateTitle ?fail ?t) = js ''um so basically we need to ship this by Friday.''"
    by code_simp
  have vl: "fst (generateTitle ?fail ?l) =
            js ''this is a very long sentence that keeps going on and on a'' @ [ELLIPSIS]"
    by code_simp
  have 1: "generateTitle ?fail ?e = ([], [])"
    using generateTitle_fallback[of ?e ?fail] e by blast
  have 2: "length (fst (generateTitle ?fail ?t)) \<le> 60"
    using generateTitle_fallback[of ?t ?fail RemoteCallFailure] nt
    unfolding Let_def by blast
  have 3: "length (fst (generateTitle ?fail ?l)) \<le> 60"
    using generateTitle_fallback[of ?l ?fail RemoteCallFailure] nl
    unfolding Let_def by blast
  show ?thesis using e nt nl vt vl 1 2 3 by blast
qed

text \<open>
  Claim C7 as stated fails on a text that starts with a terminator: the text up to the
  first terminator of \<open>...\<close> is \<open>.\<close> or nothing and the title is \<open>...\<close>; for
  \<open>?what. now\<close> it is \<open>?\<close> or nothing and the title is \<open>what.\<close>.
\<close>

theorem title_first_sentence_counterexample:
  "fst (generateTitle (\<lambda>t. Inl RemoteCallFailure) (js ''...'')) = js ''...'' \<and>
   title_of_sentence (trim (text_up_to_terminator
      (trim (replace_runs is_ws [SPACE] (trim (js ''...'')))))) = js ''.'' \<and>
   takeWhile (\<lambda>c. \<not> is_term c) (trim (replace_runs is_ws [SPACE] (trim (js ''...'')))) = [] \<and>
   fst (generateTitle (\<lambda>t. Inl RemoteCallFailure) (js ''?what. now'')) = js ''what.'' \<and>
   title_of_sentence (trim (text_up_to_terminator
      (trim (replace_runs is_ws [SPACE] (trim (js ''?what. now'')))))) = js ''?'' \<and>
   takeWhile (\<lambda>c. \<not> is_term c)
      (trim (replace_runs is_ws [SPACE] (trim (js ''?what. now'')))) = []"
  by code_simp

end
